theory Spec2Isabelle
  imports Main
begin

section \<open>Dice Chess: the rule engine of \<^verbatim>\<open>DiceChess.py\<close>\<close>

text \<open>
  \<^verbatim>\<open>DiceChess.py\<close> defines one class, \<^verbatim>\<open>DiceBoard\<close>, on top of the board of the
  \<^verbatim>\<open>chess\<close> library. The library is not part of the repository: its data appear here
  as far as the class reads and writes them, and its algorithms (move generation,
  castling detection, move application) are parameters of every definition. What is
  written out of the library's \<^verbatim>\<open>push\<close> is its assertion that the origin of the move holds
  a piece.
\<close>

subsection \<open>Pieces, squares and moves\<close>

text \<open>\<^verbatim>\<open>pieces_list = [chess.PAWN, chess.KNIGHT, chess.BISHOP, chess.ROOK, chess.QUEEN, chess.KING]\<close>\<close>

datatype PieceType = PAWN | KNIGHT | BISHOP | ROOK | QUEEN | KING

definition pieces_list :: "PieceType list" where
  "pieces_list = [PAWN, KNIGHT, BISHOP, ROOK, QUEEN, KING]"

text \<open>Colours are the booleans of the library: \<^verbatim>\<open>chess.WHITE = True\<close>, \<^verbatim>\<open>chess.BLACK = False\<close>.\<close>

definition WHITE :: bool where
  "WHITE = True"

definition BLACK :: bool where
  "BLACK = False"

record Piece =
  piece_type :: PieceType
  color :: bool

text \<open>
  A square is an integer, 0 (a1) to 63 (h8), rank by rank. The three helpers are the
  library's \<^verbatim>\<open>chess.square\<close>, \<^verbatim>\<open>chess.square_file\<close> (\<^verbatim>\<open>square & 7\<close>) and
  \<^verbatim>\<open>chess.square_rank\<close> (\<^verbatim>\<open>square >> 3\<close>); on Python's integers the mask and the shift
  are \<open>mod 8\<close> and the flooring \<open>div 8\<close>.
\<close>

definition square :: "int \<Rightarrow> int \<Rightarrow> int" where
  "square file_index rank_index = rank_index * 8 + file_index"

definition square_file :: "int \<Rightarrow> int" where
  "square_file sq = sq mod 8"

definition square_rank :: "int \<Rightarrow> int" where
  "square_rank sq = sq div 8"

text \<open>\<^verbatim>\<open>chess.Move(from_square, to_square, promotion=None, drop=None)\<close>\<close>

record Move =
  from_square :: int
  to_square :: int
  promotion :: "PieceType option"
  drop_piece :: "PieceType option"

definition mk_move :: "int \<Rightarrow> int \<Rightarrow> Move" where
  "mk_move f t = \<lparr>from_square = f, to_square = t, promotion = None, drop_piece = None\<rparr>"

subsection \<open>The board engine\<close>

text \<open>
  Modelled from the spec: the Position of the data model (\<open>piece placement, side to move,
  castling availability, standard en-passant square\<close>), which is the state of
  \<^verbatim>\<open>chess.Board\<close>; the class is missing from the sources. \<^verbatim>\<open>DiceBoard\<close> reads and assigns
  \<^verbatim>\<open>turn\<close> and \<^verbatim>\<open>ep_square\<close> directly.
\<close>

record Board =
  placement :: "int \<Rightarrow> Piece option"
  turn :: bool
  castling_rights :: int
  ep_square :: "int option"

text \<open>
  Modelled from the spec: \<open>piece lookup by square\<close> of the board engine's interface, and
  the removal of the piece of one square (\<^verbatim>\<open>chess.Board.piece_at\<close>,
  \<^verbatim>\<open>chess.Board.remove_piece_at\<close>, both missing from the sources).
\<close>

definition piece_at :: "Board \<Rightarrow> int \<Rightarrow> Piece option" where
  "piece_at b sq = placement b sq"

definition remove_piece_at :: "Board \<Rightarrow> int \<Rightarrow> Board" where
  "remove_piece_at b sq = b\<lparr>placement := (placement b)(sq := None)\<rparr>"

text \<open>
  The algorithms of the engine that \<^verbatim>\<open>DiceBoard\<close> calls through \<^verbatim>\<open>super()\<close> or inherits:
  \<^verbatim>\<open>pseudo_legal_moves\<close>, \<^verbatim>\<open>is_castling\<close> and \<^verbatim>\<open>push\<close> of \<^verbatim>\<open>chess.Board\<close>. They are
  parameters: every theorem holds for every engine, unless it names a hypothesis on it.
  \<open>board_push\<close> is the board after a \<^verbatim>\<open>push\<close> that returns, \<open>board_abort\<close> the board that a
  \<^verbatim>\<open>push\<close> leaves behind when its assertion fails (by then the library has assigned
  \<^verbatim>\<open>castling_rights\<close> and \<^verbatim>\<open>ep_square\<close>).
\<close>

record engine =
  pseudo_legal_moves :: "Board \<Rightarrow> Move list"
  is_castling :: "Board \<Rightarrow> Move \<Rightarrow> bool"
  board_push :: "Board \<Rightarrow> Move \<Rightarrow> Board"
  board_abort :: "Board \<Rightarrow> Move \<Rightarrow> Board"

text \<open>The exceptions that the class and the library raise.\<close>

datatype error = AttributeError | ValueError | AssertionError

text \<open>
  \<^verbatim>\<open>super().push(move)\<close>. The library's \<^verbatim>\<open>push\<close> returns early for the null move
  (\<^verbatim>\<open>if not move\<close>: origin and destination 0, no promotion, no drop) and for a drop;
  for every other move it takes the piece from the origin and asserts that there was
  one (\<^verbatim>\<open>assert piece_type is not None, "push() expects move to be pseudo-legal, ..."\<close>).
  A failed assertion raises \<^verbatim>\<open>AssertionError\<close>.
\<close>

definition is_null_move :: "Move \<Rightarrow> bool" where
  "is_null_move move =
     (from_square move = 0 \<and> to_square move = 0 \<and> promotion move = None \<and> drop_piece move = None)"

definition assertion_fails :: "Board \<Rightarrow> Move \<Rightarrow> bool" where
  "assertion_fails b move =
     (\<not> is_null_move move \<and> drop_piece move = None \<and> piece_at b (from_square move) = None)"

definition super_push :: "engine \<Rightarrow> Board \<Rightarrow> Move \<Rightarrow> error + Board" where
  "super_push E b move =
     (if assertion_fails b move then Inl AssertionError else Inr (board_push E b move))"

subsection \<open>\<^verbatim>\<open>DiceBoard\<close>\<close>

text \<open>
  The state of a \<^verbatim>\<open>DiceBoard\<close>: the inherited board, \<^verbatim>\<open>ep_squares\<close> (a dictionary with
  the two colours as keys, a list of squares each) and \<^verbatim>\<open>dice_roll\<close>. Of the methods of
  the class, \<^verbatim>\<open>roll_dices\<close> (random), \<^verbatim>\<open>san\<close> (notation), the overrides \<^verbatim>\<open>is_check\<close>,
  \<^verbatim>\<open>is_checkmate\<close>, \<^verbatim>\<open>is_stalemate\<close> and \<^verbatim>\<open>_attacked_for_king\<close> (read only by the
  library's move generation, a parameter here) and the loop of \<^verbatim>\<open>main\<close> have no
  definition below.
\<close>

record DiceBoard =
  board :: Board
  ep_squares :: "bool \<Rightarrow> int list"
  dice_roll :: "PieceType list"

text \<open>\<^verbatim>\<open>__init__\<close>: the board of the library, no right, no die.\<close>

definition init :: "Board \<Rightarrow> DiceBoard" where
  "init b = \<lparr>board = b, ep_squares = (\<lambda>_. []), dice_roll = []\<rparr>"

text \<open>
  \<^verbatim>\<open>copy\<close>: the library's copy of the board, a deep copy of \<^verbatim>\<open>ep_squares\<close> and a copy of
  \<^verbatim>\<open>dice_roll\<close>. On values the copy is equal to the original; what it shares with the
  original is the subject of the store further down.
\<close>

definition copy :: "DiceBoard \<Rightarrow> DiceBoard" where
  "copy self = \<lparr>board = board self, ep_squares = ep_squares self, dice_roll = dice_roll self\<rparr>"

text \<open>
  \<^verbatim>\<open>pseudo_legal_moves_dice\<close>. \<open>ep_moves_of\<close> is the body of the loop over
  \<^verbatim>\<open>self.ep_squares[color]\<close>, for one square: the two values of \<^verbatim>\<open>df\<close> in turn.
\<close>

definition ep_moves_of :: "DiceBoard \<Rightarrow> int \<Rightarrow> Move list" where
  "ep_moves_of self ep_sq =
     (let col = turn (board self);
          opponent = (\<not> col);
          ep_rank = square_rank ep_sq;
          ep_file = square_file ep_sq;
          direction = (if col = WHITE then 1 else - 1);
          captured_sq = square ep_file (ep_rank - direction)
      in concat (map (\<lambda>df.
           let pawn_file = ep_file + df in
           if 0 \<le> pawn_file \<and> pawn_file \<le> 7 then
             (let pawn_sq = square pawn_file (ep_rank - direction) in
              case piece_at (board self) pawn_sq of
                None \<Rightarrow> []
              | Some piece \<Rightarrow>
                  if piece_type piece = PAWN \<and> color piece = col then
                    (case piece_at (board self) captured_sq of
                       None \<Rightarrow> []
                     | Some captured_piece \<Rightarrow>
                         if piece_type captured_piece = PAWN \<and> color captured_piece = opponent
                         then [mk_move pawn_sq ep_sq] else [])
                  else [])
           else []) [- 1, 1]))"

definition pseudo_legal_moves_dice :: "engine \<Rightarrow> DiceBoard \<Rightarrow> Move list" where
  "pseudo_legal_moves_dice E self =
     pseudo_legal_moves E (board self)
     @ concat (map (ep_moves_of self) (ep_squares self (turn (board self))))"

text \<open>
  \<^verbatim>\<open>_get_pseudo_moves\<close>: \<^verbatim>\<open>(not castling and piece and piece.piece_type in dice_roll)
  or (castling and KING in dice_roll and ROOK in dice_roll)\<close>.
\<close>

definition dice_match :: "engine \<Rightarrow> DiceBoard \<Rightarrow> Move \<Rightarrow> bool" where
  "dice_match E self move =
     (let castling = is_castling E (board self) move in
      (\<not> castling \<and>
        (case piece_at (board self) (from_square move) of
           None \<Rightarrow> False
         | Some piece \<Rightarrow> piece_type piece \<in> set (dice_roll self)))
      \<or> (castling \<and> KING \<in> set (dice_roll self) \<and> ROOK \<in> set (dice_roll self)))"

definition get_pseudo_moves :: "engine \<Rightarrow> DiceBoard \<Rightarrow> Move list" where
  "get_pseudo_moves E self = filter (dice_match E self) (pseudo_legal_moves_dice E self)"

text \<open>
  \<^verbatim>\<open>push\<close>, in the order of the source. \<open>ep_capture\<close> is the block \<open>Detect custom en
  passant captures\<close>, \<open>remove_dice\<close> the \<^verbatim>\<open>try\<close> block (a \<^verbatim>\<open>ValueError\<close> of the first
  \<^verbatim>\<open>remove\<close> skips the second, one of the second changes nothing), \<open>grant_ep\<close> the block
  \<open>Handle new en passant rights\<close>. \<^verbatim>\<open>piece\<close> is read before the en-passant block,
  \<^verbatim>\<open>super().push(move)\<close> runs after it, on the board the block has left, and an
  \<^verbatim>\<open>AssertionError\<close> there ends the call. With \<^verbatim>\<open>make_changes\<close> and no piece on the origin
  (the null move or a drop, which the library accepts), \<^verbatim>\<open>piece.piece_type\<close> raises
  \<^verbatim>\<open>AttributeError\<close>, which the \<^verbatim>\<open>except ValueError\<close> does not catch.
\<close>

definition is_pawn_piece :: "Piece option \<Rightarrow> bool" where
  "is_pawn_piece piece = (case piece of None \<Rightarrow> False | Some p \<Rightarrow> piece_type p = PAWN)"

definition ep_capture_cond :: "DiceBoard \<Rightarrow> Move \<Rightarrow> bool \<Rightarrow> bool" where
  "ep_capture_cond self move make_changes =
     (make_changes
      \<and> is_pawn_piece (piece_at (board self) (from_square move))
      \<and> to_square move \<in> set (ep_squares self (turn (board self)))
      \<and> piece_at (board self) (to_square move) = None)"

definition ep_capture :: "DiceBoard \<Rightarrow> Move \<Rightarrow> DiceBoard" where
  "ep_capture self move =
     (let col = turn (board self);
          ep_capture_square = to_square move + (if col = BLACK then 8 else - 8)
      in self\<lparr>board := remove_piece_at (board self) ep_capture_square,
              ep_squares := (ep_squares self)(col := remove1 (to_square move) (ep_squares self col))\<rparr>)"

definition remove_dice :: "PieceType \<Rightarrow> bool \<Rightarrow> PieceType list \<Rightarrow> PieceType list" where
  "remove_dice pt castling dice =
     (if pt \<in> set dice
      then (let dice1 = remove1 pt dice in if castling then remove1 ROOK dice1 else dice1)
      else dice)"

definition has_adjacent_opponent_pawn :: "Board \<Rightarrow> bool \<Rightarrow> int \<Rightarrow> bool" where
  "has_adjacent_opponent_pawn b opponent to_sq =
     (let to_file = square_file to_sq; to_rank = square_rank to_sq in
      list_ex (\<lambda>side_file.
          0 \<le> side_file \<and> side_file \<le> 7 \<and>
          (case piece_at b (square side_file to_rank) of
             None \<Rightarrow> False
           | Some piece \<Rightarrow> piece_type piece = PAWN \<and> color piece = opponent))
        [to_file - 1, to_file + 1])"

definition grant_ep :: "DiceBoard \<Rightarrow> Move \<Rightarrow> bool \<Rightarrow> DiceBoard" where
  "grant_ep self move opponent =
     (let from_rank = square_rank (from_square move);
          to_rank = square_rank (to_square move)
      in if \<bar>to_rank - from_rank\<bar> = 2 then
           (let ep_sq = (from_square move + to_square move) div 2 in
            if has_adjacent_opponent_pawn (board self) opponent (to_square move)
               \<and> ep_sq \<notin> set (ep_squares self opponent)
            then self\<lparr>ep_squares := (ep_squares self)(opponent := ep_squares self opponent @ [ep_sq])\<rparr>
            else self)
         else self)"

definition push :: "engine \<Rightarrow> DiceBoard \<Rightarrow> Move \<Rightarrow> bool \<Rightarrow> error + DiceBoard" where
  "push E self move make_changes =
     (let col = turn (board self);
          opponent = (\<not> col);
          piece = piece_at (board self) (from_square move);
          castling = is_castling E (board self) move;
          is_pawn = is_pawn_piece piece;
          self1 = (if ep_capture_cond self move make_changes then ep_capture self move else self)
      in case super_push E (board self1) move of
           Inl e \<Rightarrow> Inl e
         | Inr pushed \<Rightarrow>
             (let self2 = self1\<lparr>board := pushed\<lparr>turn := col, ep_square := None\<rparr>\<rparr>
              in if make_changes then
                   (case piece of
                      None \<Rightarrow> Inl AttributeError
                    | Some p \<Rightarrow>
                        (let self3 = self2\<lparr>dice_roll :=
                                       remove_dice (piece_type p) castling (dice_roll self2)\<rparr>
                         in Inr (if is_pawn then grant_ep self3 move opponent else self3)))
                 else Inr self2))"

text \<open>\<^verbatim>\<open>is_game_over\<close> and \<^verbatim>\<open>next_player\<close>.\<close>

definition is_game_over :: "DiceBoard \<Rightarrow> Move \<Rightarrow> bool" where
  "is_game_over self move =
     (case piece_at (board self) (to_square move) of
        None \<Rightarrow> False
      | Some captured \<Rightarrow> if piece_type captured = KING then True else False)"

definition next_player :: "DiceBoard \<Rightarrow> DiceBoard" where
  "next_player self =
     (let col = turn (board self) in
      self\<lparr>ep_squares := (ep_squares self)(col := []),
           board := (board self)\<lparr>turn := (\<not> col)\<rparr>\<rparr>)"

text \<open>
  The test that closes \<^verbatim>\<open>_get_moves_2\<close> and \<^verbatim>\<open>_get_moves_3\<close>:
  \<^verbatim>\<open>(captured := self.piece_at(move.to_square)) and captured.piece_type == chess.KING\<close>.
\<close>

definition captures_king :: "DiceBoard \<Rightarrow> Move \<Rightarrow> bool" where
  "captures_king self move =
     (case piece_at (board self) (to_square move) of
        None \<Rightarrow> False
      | Some captured \<Rightarrow> piece_type captured = KING)"

definition select_counted :: "DiceBoard \<Rightarrow> Move list \<Rightarrow> nat list \<Rightarrow> nat \<Rightarrow> Move list" where
  "select_counted self pseudo_moves counts max_count =
     map fst (filter (\<lambda>(move, count). count = max_count \<or> captures_king self move)
               (zip pseudo_moves counts))"

text \<open>
  \<^verbatim>\<open>_get_moves_2\<close>. The loop runs over \<^verbatim>\<open>enumerate(pseudo_moves)\<close> with the state
  \<^verbatim>\<open>(count_list, max_count)\<close>; an exception of \<^verbatim>\<open>push\<close> leaves the loop.
\<close>

fun moves_2_loop ::
  "engine \<Rightarrow> DiceBoard \<Rightarrow> (nat \<times> Move) list \<Rightarrow> nat list \<times> nat \<Rightarrow> error + (nat list \<times> nat)" where
  "moves_2_loop E self [] (counts, max_count) = Inr (counts, max_count)"
| "moves_2_loop E self ((i, move) # rest) (counts, max_count) =
     (if is_castling E (board self) move
      then moves_2_loop E self rest (counts[i := 2], 2)
      else (case push E (copy self) move True of
              Inl e \<Rightarrow> Inl e
            | Inr board_p1 \<Rightarrow>
                (let pseudo_moves_p1 = get_pseudo_moves E board_p1 in
                 if length pseudo_moves_p1 > 0
                 then moves_2_loop E self rest (counts[i := 2], 2)
                 else moves_2_loop E self rest (counts, max_count))))"

definition get_moves_2 :: "engine \<Rightarrow> DiceBoard \<Rightarrow> error + Move list" where
  "get_moves_2 E self =
     (let pseudo_moves = get_pseudo_moves E self;
          counts = map (\<lambda>_. 1) pseudo_moves;
          max_count = 1
      in case moves_2_loop E self (enumerate 0 pseudo_moves) (counts, max_count) of
           Inl e \<Rightarrow> Inl e
         | Inr (counts, max_count) \<Rightarrow>
             Inr (select_counted self pseudo_moves counts max_count))"

text \<open>
  \<^verbatim>\<open>_get_moves_3\<close>. \<open>moves_3_inner\<close> is the loop over \<^verbatim>\<open>pseudo_moves_p1\<close>, which a
  \<^verbatim>\<open>break\<close> leaves; \<open>moves_3_loop\<close> is the loop over the candidates.
\<close>

fun moves_3_inner ::
  "engine \<Rightarrow> DiceBoard \<Rightarrow> nat \<Rightarrow> Move list \<Rightarrow> nat list \<times> nat \<Rightarrow> error + (nat list \<times> nat)" where
  "moves_3_inner E board_p1 i [] (counts, max_count) = Inr (counts, max_count)"
| "moves_3_inner E board_p1 i (move_p1 # rest) (counts, max_count) =
     (if is_castling E (board board_p1) move_p1
      then Inr (counts[i := 3], 3)
      else (case push E (copy board_p1) move_p1 True of
              Inl e \<Rightarrow> Inl e
            | Inr board_p2 \<Rightarrow>
                (let pseudo_moves_p2 = get_pseudo_moves E board_p2 in
                 if length pseudo_moves_p2 > 0
                 then Inr (counts[i := 3], 3)
                 else moves_3_inner E board_p1 i rest (counts, max_count))))"

fun moves_3_loop ::
  "engine \<Rightarrow> DiceBoard \<Rightarrow> (nat \<times> Move) list \<Rightarrow> nat list \<times> nat \<Rightarrow> error + (nat list \<times> nat)" where
  "moves_3_loop E self [] (counts, max_count) = Inr (counts, max_count)"
| "moves_3_loop E self ((i, move) # rest) (counts, max_count) =
     (case push E (copy self) move True of
        Inl e \<Rightarrow> Inl e
      | Inr board_p1 \<Rightarrow>
          (let pseudo_moves_p1 = get_pseudo_moves E board_p1 in
           if is_castling E (board self) move then
             (let counts2 = counts[i := 2];
                  max_count2 = (if max_count < 2 then 2 else max_count)
              in if length pseudo_moves_p1 > 0
                 then moves_3_loop E self rest (counts2[i := 3], 3)
                 else moves_3_loop E self rest (counts2, max_count2))
           else if length pseudo_moves_p1 > 0 then
             (let counts2 = counts[i := 2];
                  max_count2 = (if max_count < 2 then 2 else max_count)
              in case moves_3_inner E board_p1 i pseudo_moves_p1 (counts2, max_count2) of
                   Inl e \<Rightarrow> Inl e
                 | Inr state \<Rightarrow> moves_3_loop E self rest state)
           else moves_3_loop E self rest (counts, max_count)))"

definition get_moves_3 :: "engine \<Rightarrow> DiceBoard \<Rightarrow> error + Move list" where
  "get_moves_3 E self =
     (let pseudo_moves = get_pseudo_moves E self;
          counts = map (\<lambda>_. 1) pseudo_moves;
          max_count = 1
      in case moves_3_loop E self (enumerate 0 pseudo_moves) (counts, max_count) of
           Inl e \<Rightarrow> Inl e
         | Inr (counts, max_count) \<Rightarrow>
             Inr (select_counted self pseudo_moves counts max_count))"

text \<open>\<^verbatim>\<open>get_moves\<close>: the \<^verbatim>\<open>else\<close> branch raises \<^verbatim>\<open>ValueError\<close>.\<close>

definition get_moves :: "engine \<Rightarrow> DiceBoard \<Rightarrow> error + Move list" where
  "get_moves E self =
     (let nDices = length (dice_roll self) in
      if nDices = 0 then Inr []
      else if nDices = 1 then Inr (get_pseudo_moves E self)
      else if nDices = 2 then get_moves_2 E self
      else if nDices = 3 then get_moves_3 E self
      else Inl ValueError)"

subsection \<open>The objects of the class and what they share\<close>

text \<open>
  The definitions above pass the state as a value. In the source a \<^verbatim>\<open>DiceBoard\<close> is an
  object whose \<^verbatim>\<open>ep_squares\<close> is a reference to a dictionary of two references to lists
  and whose \<^verbatim>\<open>dice_roll\<close> is a reference to a list; \<^verbatim>\<open>push\<close> assigns fields of the object
  and changes the lists in place (\<^verbatim>\<open>remove\<close>, \<^verbatim>\<open>append\<close>). The store keeps the objects of
  each kind in a list of its own, a reference is an index into it, and a new object is
  appended. The fields of \<^verbatim>\<open>chess.Board\<close> are integers, kept in the object.
\<close>

record DiceBoardObj =
  obj_board :: Board
  obj_ep_squares :: nat
  obj_dice_roll :: nat

record store =
  boards :: "DiceBoardObj list"
  dicts :: "(nat \<times> nat) list"
  square_lists :: "int list list"
  dice_lists :: "PieceType list list"

text \<open>Reading \<^verbatim>\<open>self.ep_squares[c]\<close> and \<^verbatim>\<open>self.dice_roll\<close>: the references, then the lists.\<close>

definition ep_ref :: "store \<Rightarrow> nat \<Rightarrow> bool \<Rightarrow> nat" where
  "ep_ref s self c =
     (let (white_ref, black_ref) = dicts s ! obj_ep_squares (boards s ! self)
      in if c = WHITE then white_ref else black_ref)"

definition dice_ref :: "store \<Rightarrow> nat \<Rightarrow> nat" where
  "dice_ref s self = obj_dice_roll (boards s ! self)"

definition view :: "store \<Rightarrow> nat \<Rightarrow> DiceBoard" where
  "view s self =
     \<lparr>board = obj_board (boards s ! self),
      ep_squares = (\<lambda>c. square_lists s ! ep_ref s self c),
      dice_roll = dice_lists s ! dice_ref s self\<rparr>"

text \<open>
  A reference of an object of Python is never dangling, and \<^verbatim>\<open>__init__\<close>, \<^verbatim>\<open>next_player\<close>
  and \<^verbatim>\<open>copy\<close> give the two colours two different lists.
\<close>

definition wf :: "store \<Rightarrow> nat \<Rightarrow> bool" where
  "wf s self =
     (self < length (boards s)
      \<and> obj_ep_squares (boards s ! self) < length (dicts s)
      \<and> ep_ref s self WHITE < length (square_lists s)
      \<and> ep_ref s self BLACK < length (square_lists s)
      \<and> ep_ref s self WHITE \<noteq> ep_ref s self BLACK
      \<and> dice_ref s self < length (dice_lists s))"

text \<open>Assignments to a field of the object and changes of a list in place.\<close>

definition set_board :: "store \<Rightarrow> nat \<Rightarrow> Board \<Rightarrow> store" where
  "set_board s self b = s\<lparr>boards := (boards s)[self := (boards s ! self)\<lparr>obj_board := b\<rparr>]\<rparr>"

definition set_squares :: "store \<Rightarrow> nat \<Rightarrow> int list \<Rightarrow> store" where
  "set_squares s r squares = s\<lparr>square_lists := (square_lists s)[r := squares]\<rparr>"

definition set_dice :: "store \<Rightarrow> nat \<Rightarrow> PieceType list \<Rightarrow> store" where
  "set_dice s r dice = s\<lparr>dice_lists := (dice_lists s)[r := dice]\<rparr>"

text \<open>
  \<^verbatim>\<open>copy\<close> on the store. \<^verbatim>\<open>deepcopy(self.ep_squares)\<close> makes a new dictionary and a new
  list for each list it meets (one list for both colours if they shared theirs),
  \<^verbatim>\<open>self.dice_roll.copy()\<close> a new list, \<^verbatim>\<open>super().copy(stack=stack)\<close> a new object with the
  fields of the board. The squares and the piece types in the lists are integers.
\<close>

definition copy_h :: "store \<Rightarrow> nat \<Rightarrow> nat \<times> store" where
  "copy_h s self =
     (let white_ref = ep_ref s self WHITE;
          black_ref = ep_ref s self BLACK;
          white_copy = length (square_lists s);
          s1 = s\<lparr>square_lists := square_lists s @ [square_lists s ! white_ref]\<rparr>;
          black_copy = (if black_ref = white_ref then white_copy else length (square_lists s1));
          s2 = (if black_ref = white_ref then s1
                else s1\<lparr>square_lists := square_lists s1 @ [square_lists s ! black_ref]\<rparr>);
          dict_copy = length (dicts s2);
          s3 = s2\<lparr>dicts := dicts s2 @ [(white_copy, black_copy)]\<rparr>;
          dice_copy = length (dice_lists s3);
          s4 = s3\<lparr>dice_lists := dice_lists s3 @ [dice_lists s ! dice_ref s self]\<rparr>;
          board_copy = length (boards s4);
          s5 = s4\<lparr>boards := boards s4 @ [\<lparr>obj_board = obj_board (boards s ! self),
                                            obj_ep_squares = dict_copy,
                                            obj_dice_roll = dice_copy\<rparr>]\<rparr>
      in (board_copy, s5))"

text \<open>
  \<^verbatim>\<open>push\<close> on the store, statement by statement. The result is the exception, if one is
  raised, and the store as the call leaves it: after an \<^verbatim>\<open>AssertionError\<close> of the
  library the object holds what the en-passant block and the library have assigned
  until then.
\<close>

definition ep_capture_h :: "store \<Rightarrow> nat \<Rightarrow> Move \<Rightarrow> store" where
  "ep_capture_h s self move =
     (let col = turn (obj_board (boards s ! self));
          ep_capture_square = to_square move + (if col = BLACK then 8 else - 8);
          s1 = set_board s self (remove_piece_at (obj_board (boards s ! self)) ep_capture_square);
          r = ep_ref s1 self col
      in set_squares s1 r (remove1 (to_square move) (square_lists s1 ! r)))"

definition grant_ep_h :: "store \<Rightarrow> nat \<Rightarrow> Move \<Rightarrow> bool \<Rightarrow> store" where
  "grant_ep_h s self move opponent =
     (let from_rank = square_rank (from_square move);
          to_rank = square_rank (to_square move)
      in if \<bar>to_rank - from_rank\<bar> = 2 then
           (let ep_sq = (from_square move + to_square move) div 2;
                r = ep_ref s self opponent
            in if has_adjacent_opponent_pawn (obj_board (boards s ! self)) opponent (to_square move)
                  \<and> ep_sq \<notin> set (square_lists s ! r)
               then set_squares s r (square_lists s ! r @ [ep_sq])
               else s)
         else s)"

definition push_h :: "engine \<Rightarrow> store \<Rightarrow> nat \<Rightarrow> Move \<Rightarrow> bool \<Rightarrow> (error + unit) \<times> store" where
  "push_h E s self move make_changes =
     (let col = turn (obj_board (boards s ! self));
          opponent = (\<not> col);
          piece = piece_at (obj_board (boards s ! self)) (from_square move);
          castling = is_castling E (obj_board (boards s ! self)) move;
          is_pawn = is_pawn_piece piece;
          s1 = (if make_changes \<and> is_pawn
                   \<and> to_square move \<in> set (square_lists s ! ep_ref s self col)
                   \<and> piece_at (obj_board (boards s ! self)) (to_square move) = None
                then ep_capture_h s self move else s)
      in case super_push E (obj_board (boards s1 ! self)) move of
           Inl e \<Rightarrow> (Inl e, set_board s1 self (board_abort E (obj_board (boards s1 ! self)) move))
         | Inr pushed \<Rightarrow>
             (let s2 = set_board s1 self (pushed\<lparr>turn := col, ep_square := None\<rparr>)
              in if make_changes then
                   (case piece of
                      None \<Rightarrow> (Inl AttributeError, s2)
                    | Some p \<Rightarrow>
                        (let r = dice_ref s2 self;
                             s3 = set_dice s2 r
                                    (remove_dice (piece_type p) castling (dice_lists s2 ! r))
                         in (Inr (), if is_pawn then grant_ep_h s3 self move opponent else s3)))
                 else (Inr (), s2)))"

text \<open>
  \<^verbatim>\<open>_get_pseudo_moves\<close> assigns nothing and changes no list: it is the function of the
  value of the object. The loops of \<^verbatim>\<open>_get_moves_2\<close> and \<^verbatim>\<open>_get_moves_3\<close> pass the store
  on; the copies stay in it.
\<close>

definition get_pseudo_moves_h :: "engine \<Rightarrow> store \<Rightarrow> nat \<Rightarrow> Move list" where
  "get_pseudo_moves_h E s self = get_pseudo_moves E (view s self)"

fun moves_2_loop_h ::
  "engine \<Rightarrow> nat \<Rightarrow> (nat \<times> Move) list \<Rightarrow> nat list \<times> nat \<Rightarrow> store
     \<Rightarrow> (error + (nat list \<times> nat)) \<times> store" where
  "moves_2_loop_h E self [] (counts, max_count) s = (Inr (counts, max_count), s)"
| "moves_2_loop_h E self ((i, move) # rest) (counts, max_count) s =
     (if is_castling E (obj_board (boards s ! self)) move
      then moves_2_loop_h E self rest (counts[i := 2], 2) s
      else (let (board_p1, s1) = copy_h s self in
            case push_h E s1 board_p1 move True of
              (Inl e, s2) \<Rightarrow> (Inl e, s2)
            | (Inr u, s2) \<Rightarrow>
                (let pseudo_moves_p1 = get_pseudo_moves_h E s2 board_p1 in
                 if length pseudo_moves_p1 > 0
                 then moves_2_loop_h E self rest (counts[i := 2], 2) s2
                 else moves_2_loop_h E self rest (counts, max_count) s2)))"

definition get_moves_2_h :: "engine \<Rightarrow> store \<Rightarrow> nat \<Rightarrow> (error + Move list) \<times> store" where
  "get_moves_2_h E s self =
     (let pseudo_moves = get_pseudo_moves_h E s self;
          counts = map (\<lambda>_. 1) pseudo_moves;
          max_count = 1
      in case moves_2_loop_h E self (enumerate 0 pseudo_moves) (counts, max_count) s of
           (Inl e, s') \<Rightarrow> (Inl e, s')
         | (Inr (counts, max_count), s') \<Rightarrow>
             (Inr (select_counted (view s' self) pseudo_moves counts max_count), s'))"

fun moves_3_inner_h ::
  "engine \<Rightarrow> nat \<Rightarrow> nat \<Rightarrow> Move list \<Rightarrow> nat list \<times> nat \<Rightarrow> store
     \<Rightarrow> (error + (nat list \<times> nat)) \<times> store" where
  "moves_3_inner_h E board_p1 i [] (counts, max_count) s = (Inr (counts, max_count), s)"
| "moves_3_inner_h E board_p1 i (move_p1 # rest) (counts, max_count) s =
     (if is_castling E (obj_board (boards s ! board_p1)) move_p1
      then (Inr (counts[i := 3], 3), s)
      else (let (board_p2, s1) = copy_h s board_p1 in
            case push_h E s1 board_p2 move_p1 True of
              (Inl e, s2) \<Rightarrow> (Inl e, s2)
            | (Inr u, s2) \<Rightarrow>
                (let pseudo_moves_p2 = get_pseudo_moves_h E s2 board_p2 in
                 if length pseudo_moves_p2 > 0
                 then (Inr (counts[i := 3], 3), s2)
                 else moves_3_inner_h E board_p1 i rest (counts, max_count) s2)))"

fun moves_3_loop_h ::
  "engine \<Rightarrow> nat \<Rightarrow> (nat \<times> Move) list \<Rightarrow> nat list \<times> nat \<Rightarrow> store
     \<Rightarrow> (error + (nat list \<times> nat)) \<times> store" where
  "moves_3_loop_h E self [] (counts, max_count) s = (Inr (counts, max_count), s)"
| "moves_3_loop_h E self ((i, move) # rest) (counts, max_count) s =
     (let (board_p1, s1) = copy_h s self in
      case push_h E s1 board_p1 move True of
        (Inl e, s2) \<Rightarrow> (Inl e, s2)
      | (Inr u, s2) \<Rightarrow>
          (let pseudo_moves_p1 = get_pseudo_moves_h E s2 board_p1 in
           if is_castling E (obj_board (boards s2 ! self)) move then
             (let counts2 = counts[i := 2];
                  max_count2 = (if max_count < 2 then 2 else max_count)
              in if length pseudo_moves_p1 > 0
                 then moves_3_loop_h E self rest (counts2[i := 3], 3) s2
                 else moves_3_loop_h E self rest (counts2, max_count2) s2)
           else if length pseudo_moves_p1 > 0 then
             (let counts2 = counts[i := 2];
                  max_count2 = (if max_count < 2 then 2 else max_count)
              in case moves_3_inner_h E board_p1 i pseudo_moves_p1 (counts2, max_count2) s2 of
                   (Inl e, s3) \<Rightarrow> (Inl e, s3)
                 | (Inr state, s3) \<Rightarrow> moves_3_loop_h E self rest state s3)
           else moves_3_loop_h E self rest (counts, max_count) s2))"

definition get_moves_3_h :: "engine \<Rightarrow> store \<Rightarrow> nat \<Rightarrow> (error + Move list) \<times> store" where
  "get_moves_3_h E s self =
     (let pseudo_moves = get_pseudo_moves_h E s self;
          counts = map (\<lambda>_. 1) pseudo_moves;
          max_count = 1
      in case moves_3_loop_h E self (enumerate 0 pseudo_moves) (counts, max_count) s of
           (Inl e, s') \<Rightarrow> (Inl e, s')
         | (Inr (counts, max_count), s') \<Rightarrow>
             (Inr (select_counted (view s' self) pseudo_moves counts max_count), s'))"

definition get_moves_h :: "engine \<Rightarrow> store \<Rightarrow> nat \<Rightarrow> (error + Move list) \<times> store" where
  "get_moves_h E s self =
     (let nDices = length (dice_lists s ! dice_ref s self) in
      if nDices = 0 then (Inr [], s)
      else if nDices = 1 then (Inr (get_pseudo_moves_h E s self), s)
      else if nDices = 2 then get_moves_2_h E s self
      else if nDices = 3 then get_moves_3_h E s self
      else (Inl ValueError, s))"

text \<open>
  The objects of the store \<open>s\<close> are those of \<open>s'\<close> and unchanged there: the two stores
  agree on every reference of \<open>s\<close>.
\<close>

definition unchanged :: "store \<Rightarrow> store \<Rightarrow> bool" where
  "unchanged s s' =
     (take (length (boards s)) (boards s') = boards s
      \<and> take (length (dicts s)) (dicts s') = dicts s
      \<and> take (length (square_lists s)) (square_lists s') = square_lists s
      \<and> take (length (dice_lists s)) (dice_lists s') = dice_lists s)"

text \<open>
  The object \<open>self\<close> and every object it refers to were created after the store \<open>s0\<close>.
\<close>

definition owned :: "store \<Rightarrow> store \<Rightarrow> nat \<Rightarrow> bool" where
  "owned s0 s self =
     (wf s self
      \<and> length (boards s0) \<le> self
      \<and> length (dicts s0) \<le> obj_ep_squares (boards s ! self)
      \<and> length (square_lists s0) \<le> ep_ref s self WHITE
      \<and> length (square_lists s0) \<le> ep_ref s self BLACK
      \<and> length (dice_lists s0) \<le> dice_ref s self)"

subsection \<open>An engine and positions for the examples\<close>

text \<open>
  Modelled from the spec: a board engine in the sense of the external interfaces
  (\<open>piece lookup by square; pseudo-legal move generation respecting orthodox movement
  ... but ignoring check; move application (placement update, capture removal ...)\<close>),
  cut down to what the examples need: kings and pawns move as in orthodox chess
  (single and double pawn steps, diagonal captures, promotion, the standard en-passant
  square), the other pieces do not move and nobody castles. It is one instance of the
  parameter \<open>engine\<close>; no theorem about \<^verbatim>\<open>DiceBoard\<close> depends on it.
\<close>

definition coordinates :: "int list" where
  "coordinates = [0, 1, 2, 3, 4, 5, 6, 7]"

definition all_squares :: "int list" where
  "all_squares = concat (map (\<lambda>r. map (\<lambda>f. square f r) coordinates) coordinates)"

definition kp_empty :: "Board \<Rightarrow> int \<Rightarrow> bool" where
  "kp_empty b sq = (placement b sq = None)"

definition kp_enemy :: "Board \<Rightarrow> int \<Rightarrow> bool" where
  "kp_enemy b sq = (case placement b sq of None \<Rightarrow> False | Some p \<Rightarrow> color p \<noteq> turn b)"

definition kp_king_moves :: "Board \<Rightarrow> int \<Rightarrow> Move list" where
  "kp_king_moves b sq =
     concat (map (\<lambda>(df, dr).
        let f = square_file sq + df; r = square_rank sq + dr in
        if 0 \<le> f \<and> f \<le> 7 \<and> 0 \<le> r \<and> r \<le> 7 \<and> (kp_empty b (square f r) \<or> kp_enemy b (square f r))
        then [mk_move sq (square f r)] else [])
       [(- 1, - 1), (- 1, 0), (- 1, 1), (0, - 1), (0, 1), (1, - 1), (1, 0), (1, 1)])"

definition kp_promotions :: "Move \<Rightarrow> Move list" where
  "kp_promotions m =
     (if square_rank (to_square m) = 0 \<or> square_rank (to_square m) = 7
      then map (\<lambda>pt. m\<lparr>promotion := Some pt\<rparr>) [QUEEN, ROOK, BISHOP, KNIGHT]
      else [m])"

definition kp_pawn_moves :: "Board \<Rightarrow> int \<Rightarrow> Move list" where
  "kp_pawn_moves b sq =
     (let dir = (if turn b = WHITE then 1 else - 1);
          f = square_file sq;
          r = square_rank sq;
          captures = concat (map (\<lambda>df.
             let cf = f + df; target = square cf (r + dir) in
             if 0 \<le> cf \<and> cf \<le> 7 \<and> 0 \<le> r + dir \<and> r + dir \<le> 7
                \<and> (kp_enemy b target \<or> (ep_square b = Some target \<and> kp_empty b target))
             then kp_promotions (mk_move sq target) else []) [- 1, 1]);
          single = (if 0 \<le> r + dir \<and> r + dir \<le> 7 \<and> kp_empty b (square f (r + dir))
                    then kp_promotions (mk_move sq (square f (r + dir))) else []);
          double = (if r = (if turn b = WHITE then 1 else 6)
                       \<and> kp_empty b (square f (r + dir)) \<and> kp_empty b (square f (r + 2 * dir))
                    then [mk_move sq (square f (r + 2 * dir))] else [])
      in captures @ single @ double)"

definition kp_pseudo_legal_moves :: "Board \<Rightarrow> Move list" where
  "kp_pseudo_legal_moves b =
     concat (map (\<lambda>sq.
        case placement b sq of
          None \<Rightarrow> []
        | Some p \<Rightarrow>
            if color p = turn b then
              (case piece_type p of
                 KING \<Rightarrow> kp_king_moves b sq
               | PAWN \<Rightarrow> kp_pawn_moves b sq
               | _ \<Rightarrow> [])
            else []) all_squares)"

definition kp_is_castling :: "Board \<Rightarrow> Move \<Rightarrow> bool" where
  "kp_is_castling b m =
     (case placement b (from_square m) of
        None \<Rightarrow> False
      | Some p \<Rightarrow> piece_type p = KING
          \<and> 1 < \<bar>square_file (from_square m) - square_file (to_square m)\<bar>)"

definition kp_push :: "Board \<Rightarrow> Move \<Rightarrow> Board" where
  "kp_push b m =
     (case placement b (from_square m) of
        None \<Rightarrow> b\<lparr>turn := (\<not> turn b), ep_square := None\<rparr>
      | Some p \<Rightarrow>
          (let f = from_square m;
               t = to_square m;
               pawn = (piece_type p = PAWN);
               moved = (case promotion m of None \<Rightarrow> p | Some pt \<Rightarrow> p\<lparr>piece_type := pt\<rparr>);
               behind = t + (if turn b = WHITE then - 8 else 8);
               lifted = (placement b)(f := None);
               taken = (if pawn \<and> ep_square b = Some t \<and> placement b t = None
                           \<and> square_file f \<noteq> square_file t
                        then lifted(behind := None) else lifted)
           in b\<lparr>placement := taken(t := Some moved),
                turn := (\<not> turn b),
                ep_square := (if pawn \<and> \<bar>square_rank t - square_rank f\<bar> = 2
                              then Some ((f + t) div 2) else None)\<rparr>))"

definition kp_abort :: "Board \<Rightarrow> Move \<Rightarrow> Board" where
  "kp_abort b m = b\<lparr>ep_square := None\<rparr>"

definition kp_engine :: engine where
  "kp_engine = \<lparr>pseudo_legal_moves = kp_pseudo_legal_moves,
                is_castling = kp_is_castling,
                board_push = kp_push,
                board_abort = kp_abort\<rparr>"

definition mk_piece :: "PieceType \<Rightarrow> bool \<Rightarrow> Piece" where
  "mk_piece pt c = \<lparr>piece_type = pt, color = c\<rparr>"

definition empty_board :: "bool \<Rightarrow> Board" where
  "empty_board c = \<lparr>placement = (\<lambda>_. None), turn = c, castling_rights = 0, ep_square = None\<rparr>"

definition put :: "int \<Rightarrow> PieceType \<Rightarrow> bool \<Rightarrow> Board \<Rightarrow> Board" where
  "put sq pt c b = b\<lparr>placement := (placement b)(sq \<mapsto> mk_piece pt c)\<rparr>"

text \<open>
  White to move with a pawn and a king die. White holds the right d6 (square 43), its
  own king stands on that square, its pawn on c5 (34) is beside the black pawn on d5
  (35), and the black king is on e7 (52).
\<close>

definition K1board :: Board where
  "K1board = put 43 KING WHITE (put 34 PAWN WHITE (put 35 PAWN BLACK
               (put 52 KING BLACK (empty_board WHITE))))"

definition K1 :: DiceBoard where
  "K1 = \<lparr>board = K1board, ep_squares = (\<lambda>_. [])(WHITE := [43]), dice_roll = [PAWN, KING]\<rparr>"

text \<open>
  Black to move with a pawn die and two king dice: the black pawn on d7 (51) can step to
  d5 (35) beside the white pawn on e5 (36); the black king is on e7 (52), the white king
  on e1 (4). \<open>A1\<close> is the state after d7-d5, \<open>A2\<close> the state after the king move e7-d6 that
  follows, \<open>B1\<close> the position of \<open>A1\<close> with White to move.
\<close>

definition A0 :: DiceBoard where
  "A0 = \<lparr>board = put 51 PAWN BLACK (put 52 KING BLACK (put 36 PAWN WHITE
                    (put 4 KING WHITE (empty_board BLACK)))),
          ep_squares = (\<lambda>_. []), dice_roll = [PAWN, KING, KING]\<rparr>"

definition A1 :: DiceBoard where
  "A1 = \<lparr>board = put 35 PAWN BLACK (put 52 KING BLACK (put 36 PAWN WHITE
                    (put 4 KING WHITE (empty_board BLACK)))),
          ep_squares = (\<lambda>_. [])(WHITE := [43]), dice_roll = [KING, KING]\<rparr>"

definition A2 :: DiceBoard where
  "A2 = \<lparr>board = put 43 KING BLACK (put 35 PAWN BLACK (put 36 PAWN WHITE
                    (put 4 KING WHITE (empty_board BLACK)))),
          ep_squares = (\<lambda>_. [])(WHITE := [43]), dice_roll = [KING]\<rparr>"

definition B1 :: DiceBoard where
  "B1 = \<lparr>board = put 35 PAWN BLACK (put 52 KING BLACK (put 36 PAWN WHITE
                    (put 4 KING WHITE (empty_board WHITE)))),
          ep_squares = (\<lambda>_. [])(WHITE := [43]), dice_roll = [PAWN, KING]\<rparr>"

text \<open>
  \<open>K1\<close> after the pawn move c5-d6 onto White's own king, and after the pawn move c5-c6.
\<close>

definition K2 :: DiceBoard where
  "K2 = \<lparr>board = put 43 PAWN WHITE (put 35 PAWN BLACK (put 52 KING BLACK (empty_board WHITE))),
          ep_squares = (\<lambda>_. [])(WHITE := [43]), dice_roll = [KING]\<rparr>"

definition K3 :: DiceBoard where
  "K3 = \<lparr>board = put 42 PAWN WHITE (put 43 KING WHITE (put 35 PAWN BLACK
                    (put 52 KING BLACK (empty_board WHITE)))),
          ep_squares = (\<lambda>_. [])(WHITE := [43]), dice_roll = [KING]\<rparr>"

text \<open>
  White to move with three pawn dice, after Black's d7-d5 beside the white pawn on e5
  (36) has given White the right d6 (43) and Black's turn has ended: the white pawn on
  c4 (26) can take the pawn on d5 (35); a white knight on e6 (44) stands in front of the
  pawn on e5. \<open>D1\<close> is the state after c4xd5: the pawn on d5 is White's now, and d6,
  straight ahead of it, is still a right of White and empty. The step d5-d6 is the
  only pawn move of \<open>D1\<close>, so that no order of the candidates matters.
\<close>

definition D0 :: DiceBoard where
  "D0 = \<lparr>board = put 26 PAWN WHITE (put 35 PAWN BLACK (put 52 KING BLACK (put 36 PAWN WHITE
                    (put 44 KNIGHT WHITE (put 4 KING WHITE (empty_board WHITE)))))),
          ep_squares = (\<lambda>_. [])(WHITE := [43]), dice_roll = [PAWN, PAWN, PAWN]\<rparr>"

definition D1 :: DiceBoard where
  "D1 = \<lparr>board = put 35 PAWN WHITE (put 52 KING BLACK (put 36 PAWN WHITE
                    (put 44 KNIGHT WHITE (put 4 KING WHITE (empty_board WHITE))))),
          ep_squares = (\<lambda>_. [])(WHITE := [43]), dice_roll = [PAWN, PAWN]\<rparr>"

text \<open>
  A store with one \<^verbatim>\<open>DiceBoard\<close>, whose value is \<open>A0\<close>.
\<close>

definition S0 :: store where
  "S0 = \<lparr>boards = [\<lparr>obj_board = board A0, obj_ep_squares = 0, obj_dice_roll = 0\<rparr>],
          dicts = [(0, 1)],
          square_lists = [[], []],
          dice_lists = [[PAWN, KING, KING]]\<rparr>"

text \<open>
  A store with one \<^verbatim>\<open>DiceBoard\<close>, whose value is \<open>D0\<close>.
\<close>

definition T0 :: store where
  "T0 = \<lparr>boards = [\<lparr>obj_board = board D0, obj_ep_squares = 0, obj_dice_roll = 0\<rparr>],
          dicts = [(0, 1)],
          square_lists = [[43], []],
          dice_lists = [[PAWN, PAWN, PAWN]]\<rparr>"

text \<open>
  \<open>S0\<close> after \<^verbatim>\<open>copy\<close> of its object, and after \<^verbatim>\<open>push\<close> of d7-d5 on the copy.
\<close>

definition S1 :: store where
  "S1 = \<lparr>boards = [\<lparr>obj_board = board A0, obj_ep_squares = 0, obj_dice_roll = 0\<rparr>,
                    \<lparr>obj_board = board A0, obj_ep_squares = 1, obj_dice_roll = 1\<rparr>],
          dicts = [(0, 1), (2, 3)],
          square_lists = [[], [], [], []],
          dice_lists = [[PAWN, KING, KING], [PAWN, KING, KING]]\<rparr>"

definition S2 :: store where
  "S2 = \<lparr>boards = [\<lparr>obj_board = board A0, obj_ep_squares = 0, obj_dice_roll = 0\<rparr>,
                    \<lparr>obj_board = board A1, obj_ep_squares = 1, obj_dice_roll = 1\<rparr>],
          dicts = [(0, 1), (2, 3)],
          square_lists = [[], [], [43], []],
          dice_lists = [[PAWN, KING, KING], [KING, KING]]\<rparr>"

subsection \<open>The statements of the spec\<close>

text \<open>
  \<open>a pawn of the opponent's color stands on an adjacent file (destination file +- 1) at
  the destination rank\<close>, in the words of the spec.
\<close>

definition adjacent_pawn_of :: "Board \<Rightarrow> bool \<Rightarrow> int \<Rightarrow> bool" where
  "adjacent_pawn_of b c sq =
     (\<exists>f. (f = square_file sq - 1 \<or> f = square_file sq + 1) \<and> 0 \<le> f \<and> f \<le> 7
          \<and> piece_at b (square f (square_rank sq)) = Some \<lparr>piece_type = PAWN, color = c\<rparr>)"

text \<open>
  The invariant of the spec on the rights: \<open>each right belongs to exactly one color and
  maps to a square with no piece currently occupying\<close> it.
\<close>

definition spec_ep_invariant :: "DiceBoard \<Rightarrow> bool" where
  "spec_ep_invariant self =
     (set (ep_squares self WHITE) \<inter> set (ep_squares self BLACK) = {}
      \<and> list_all (\<lambda>sq. piece_at (board self) sq = None)
           (ep_squares self WHITE @ ep_squares self BLACK))"

text \<open>
  What the code keeps instead: no right occurs twice in a right-set, White's rights lie
  on the sixth rank and Black's on the third.
\<close>

definition ep_inv :: "DiceBoard \<Rightarrow> bool" where
  "ep_inv self =
     (distinct (ep_squares self WHITE) \<and> distinct (ep_squares self BLACK)
      \<and> list_all (\<lambda>sq. square_rank sq = 5) (ep_squares self WHITE)
      \<and> list_all (\<lambda>sq. square_rank sq = 2) (ep_squares self BLACK))"

text \<open>
  A move that steps a pawn over two ranks does so from the home rank of the colour to
  move, as every pseudo-legal move of an orthodox engine does.
\<close>

definition home_double_step :: "DiceBoard \<Rightarrow> Move \<Rightarrow> bool" where
  "home_double_step self move =
     (if is_pawn_piece (piece_at (board self) (from_square move))
         \<and> \<bar>square_rank (to_square move) - square_rank (from_square move)\<bar> = 2
      then square_rank (from_square move) = (if turn (board self) = WHITE then 1 else 6)
         \<and> square_rank (to_square move) = (if turn (board self) = WHITE then 3 else 4)
      else True)"

text \<open>
  The selection of the spec for two dice: \<open>Depth is 2 if the move is itself a castling
  move, OR if after hypothetically applying the move (on an independent copy of the full
  state, consuming the matched die), rawCandidates recomputed on that copy is non-empty.
  Let maxDepth = the maximum depth found across all candidates (minimum 1). Return every
  candidate whose depth equals maxDepth, plus any candidate that captures the opposing
  king regardless of its depth\<close>.
\<close>

definition has_continuation :: "engine \<Rightarrow> DiceBoard \<Rightarrow> Move \<Rightarrow> bool" where
  "has_continuation E self move =
     (case push E (copy self) move True of
        Inl e \<Rightarrow> False
      | Inr board_p1 \<Rightarrow> get_pseudo_moves E board_p1 \<noteq> [])"

definition spec_depth_2 :: "engine \<Rightarrow> DiceBoard \<Rightarrow> Move \<Rightarrow> nat" where
  "spec_depth_2 E self move =
     (if is_castling E (board self) move \<or> has_continuation E self move then 2 else 1)"

definition spec_max_depth :: "(Move \<Rightarrow> nat) \<Rightarrow> Move list \<Rightarrow> nat" where
  "spec_max_depth depth candidates = Max (insert 1 (depth ` set candidates))"

definition captures_opposing_king :: "DiceBoard \<Rightarrow> Move \<Rightarrow> bool" where
  "captures_opposing_king self move =
     (piece_at (board self) (to_square move)
        = Some \<lparr>piece_type = KING, color = (\<not> turn (board self))\<rparr>)"

definition spec_select :: "(Move \<Rightarrow> nat) \<Rightarrow> (Move \<Rightarrow> bool) \<Rightarrow> Move list \<Rightarrow> Move list" where
  "spec_select depth wins candidates =
     filter (\<lambda>move. depth move = spec_max_depth depth candidates \<or> wins move) candidates"

definition spec_get_moves_2 :: "engine \<Rightarrow> DiceBoard \<Rightarrow> Move list" where
  "spec_get_moves_2 E self =
     spec_select (spec_depth_2 E self) (captures_opposing_king self) (get_pseudo_moves E self)"

text \<open>
  The depth of the spec for three dice: \<open>For a non-castling candidate, simulate one
  step (depth candidate 2 if any continuation exists), and if a continuation exists,
  simulate a second step; if the second step's own candidate is a castling move, or if
  it yields a further non-empty continuation, raise depth to 3. For a castling first
  move, start at depth 2 and raise to 3 if any continuation exists after it\<close>, and the
  selection \<open>Apply the same max-and-king-capture-exception filter as step 3\<close>. Where the
  first step cannot be simulated the source raises, and the depth is left at 1.
\<close>

definition confirms_depth_3 :: "engine \<Rightarrow> DiceBoard \<Rightarrow> Move \<Rightarrow> bool" where
  "confirms_depth_3 E board_p1 move_p1 =
     (is_castling E (board board_p1) move_p1 \<or> has_continuation E board_p1 move_p1)"

definition spec_depth_3 :: "engine \<Rightarrow> DiceBoard \<Rightarrow> Move \<Rightarrow> nat" where
  "spec_depth_3 E self move =
     (case push E (copy self) move True of
        Inl e \<Rightarrow> 1
      | Inr board_p1 \<Rightarrow>
          (let continuations = get_pseudo_moves E board_p1 in
           if is_castling E (board self) move
           then (if continuations \<noteq> [] then 3 else 2)
           else if continuations = [] then 1
           else if list_ex (confirms_depth_3 E board_p1) continuations then 3
           else 2))"

definition spec_get_moves_3 :: "engine \<Rightarrow> DiceBoard \<Rightarrow> Move list" where
  "spec_get_moves_3 E self =
     spec_select (spec_depth_3 E self) (captures_opposing_king self) (get_pseudo_moves E self)"

text \<open>
  The lookahead returns: \<^verbatim>\<open>push\<close> raises on none of the copies. \<^verbatim>\<open>_get_moves_2\<close> calls it
  for the candidates that are no castling moves, \<^verbatim>\<open>_get_moves_3\<close> for every candidate
  and, after a candidate that is no castling move, for its continuations that are no
  castling moves (up to the first that confirms depth 3).
\<close>

definition push_returns :: "engine \<Rightarrow> DiceBoard \<Rightarrow> Move \<Rightarrow> bool" where
  "push_returns E self move =
     (case push E (copy self) move True of Inl e \<Rightarrow> False | Inr board_p1 \<Rightarrow> True)"

definition lookahead_2_returns :: "engine \<Rightarrow> DiceBoard \<Rightarrow> bool" where
  "lookahead_2_returns E self =
     list_all (\<lambda>move. is_castling E (board self) move \<or> push_returns E self move)
       (get_pseudo_moves E self)"

definition lookahead_3_returns :: "engine \<Rightarrow> DiceBoard \<Rightarrow> bool" where
  "lookahead_3_returns E self =
     list_all (\<lambda>move.
         case push E (copy self) move True of
           Inl e \<Rightarrow> False
         | Inr board_p1 \<Rightarrow> is_castling E (board self) move \<or> lookahead_2_returns E board_p1)
       (get_pseudo_moves E self)"

text \<open>
  The en-passant block of \<^verbatim>\<open>push\<close> runs for the move and the square it clears,
  \<^verbatim>\<open>move.to_square + (8 if color == chess.BLACK else -8)\<close>, is the origin of the move: a
  pawn that steps straight onto a right of its colour.
\<close>

definition removes_mover :: "DiceBoard \<Rightarrow> Move \<Rightarrow> bool" where
  "removes_mover self move =
     (ep_capture_cond self move True
      \<and> from_square move = to_square move + (if turn (board self) = BLACK then 8 else - 8))"

section \<open>Properties\<close>

lemmas example_defs =
  K1_def K1board_def put_def empty_board_def mk_piece_def WHITE_def BLACK_def mk_move_def

lemmas kp_defs = kp_engine_def kp_push_def kp_is_castling_def square_def square_file_def square_rank_def

lemmas kp_gen_defs = kp_pseudo_legal_moves_def all_squares_def coordinates_def kp_king_moves_def
  kp_pawn_moves_def kp_promotions_def kp_empty_def kp_enemy_def

lemmas push_defs = push_def super_push_def assertion_fails_def is_null_move_def Let_def
  ep_capture_cond_def is_pawn_piece_def piece_at_def remove_dice_def grant_ep_def
  has_adjacent_opponent_pawn_def ep_capture_def remove_piece_at_def fun_upd_idem_iff

lemmas moves_defs = get_pseudo_moves_def pseudo_legal_moves_dice_def dice_match_def ep_moves_of_def

subsection \<open>What \<^verbatim>\<open>push\<close> does to each part of the state\<close>

lemma copy_self: "copy self = self"
  by (simp add: copy_def)

lemma has_adjacent_iff: "has_adjacent_opponent_pawn b c sq \<longleftrightarrow> adjacent_pawn_of b c sq"
proof -
  have pc: "\<And>x. (case x of None \<Rightarrow> False | Some piece \<Rightarrow> piece_type piece = PAWN \<and> color piece = c)
        \<longleftrightarrow> x = Some \<lparr>piece_type = PAWN, color = c\<rparr>"
    by (auto split: option.splits)
  show ?thesis
    unfolding has_adjacent_opponent_pawn_def adjacent_pawn_of_def Let_def pc
    by auto
qed

lemma push_board:
  "push E self move mc = Inr self' \<Longrightarrow>
   board self' = (board_push E (if ep_capture_cond self move mc
        then remove_piece_at (board self) (to_square move + (if turn (board self) = BLACK then 8 else - 8))
        else board self) move)\<lparr>turn := turn (board self), ep_square := None\<rparr>"
  by (auto simp: push_def super_push_def Let_def ep_capture_def grant_ep_def
      split: option.splits if_splits)

lemma push_ep_mover:
  "push E self move mc = Inr self' \<Longrightarrow>
   ep_squares self' (turn (board self)) =
     (if ep_capture_cond self move mc
      then remove1 (to_square move) (ep_squares self (turn (board self)))
      else ep_squares self (turn (board self)))"
  by (auto simp: push_def super_push_def Let_def ep_capture_def grant_ep_def
      split: option.splits if_splits)

lemma push_ep_opponent:
  "push E self move True = Inr self' \<Longrightarrow>
   ep_squares self' (\<not> turn (board self)) =
     (if is_pawn_piece (piece_at (board self) (from_square move))
         \<and> \<bar>square_rank (to_square move) - square_rank (from_square move)\<bar> = 2
         \<and> has_adjacent_opponent_pawn (board self') (\<not> turn (board self)) (to_square move)
         \<and> (from_square move + to_square move) div 2 \<notin> set (ep_squares self (\<not> turn (board self)))
      then ep_squares self (\<not> turn (board self)) @ [(from_square move + to_square move) div 2]
      else ep_squares self (\<not> turn (board self)))"
  by (auto simp: push_def super_push_def Let_def ep_capture_def grant_ep_def
      split: option.splits if_splits)

lemma push_dice:
  "push E self move True = Inr self' \<Longrightarrow>
   \<exists>p. piece_at (board self) (from_square move) = Some p \<and>
   dice_roll self' = remove_dice (piece_type p) (is_castling E (board self) move) (dice_roll self)"
  by (auto simp: push_def super_push_def Let_def ep_capture_def grant_ep_def
      split: option.splits if_splits)

lemma push_aborts:
  "push E self move mc = Inl AssertionError \<longleftrightarrow>
     assertion_fails (board (if ep_capture_cond self move mc then ep_capture self move else self)) move"
  by (auto simp: push_def super_push_def Let_def split: option.splits)

lemma push_error: "push E self move mc = Inl e \<Longrightarrow> e = AssertionError \<or> e = AttributeError"
  by (auto simp: push_def super_push_def Let_def split: option.splits if_splits)

lemma push_succeeds:
  assumes "piece_at (board self) (from_square move) \<noteq> None"
    and "\<not> (ep_capture_cond self move mc
           \<and> from_square move = to_square move + (if turn (board self) = BLACK then 8 else - 8))"
  shows "\<exists>self'. push E self move mc = Inr self'"
proof -
  let ?self1 = "if ep_capture_cond self move mc then ep_capture self move else self"
  have "piece_at (board ?self1) (from_square move) \<noteq> None"
    using assms by (auto simp: ep_capture_def Let_def piece_at_def remove_piece_at_def)
  then have "\<not> assertion_fails (board ?self1) move"
    by (simp add: assertion_fails_def)
  with assms(1) show ?thesis
    by (auto simp: push_def super_push_def Let_def split: option.splits)
qed

lemma push_removes_mover:
  assumes "removes_mover self move" and "drop_piece move = None"
  shows "push E self move True = Inl AssertionError"
proof -
  from assms(1) have c: "ep_capture_cond self move True"
    and f: "from_square move = to_square move + (if turn (board self) = BLACK then 8 else - 8)"
    by (simp_all add: removes_mover_def)
  from f have "\<not> is_null_move move" by (auto simp: is_null_move_def split: if_splits)
  moreover have "piece_at (board (ep_capture self move)) (from_square move) = None"
    unfolding f by (simp add: ep_capture_def Let_def piece_at_def remove_piece_at_def)
  ultimately have "assertion_fails (board (ep_capture self move)) move"
    using assms(2) by (simp add: assertion_fails_def)
  with c show ?thesis by (simp add: push_aborts)
qed

lemma push_turn: "push E self move mc = Inr self' \<Longrightarrow> turn (board self') = turn (board self)"
  by (drule push_board) simp

subsection \<open>End of turn\<close>

text \<open>
  Claim C5. \<^verbatim>\<open>next_player\<close> empties the right-set of the colour to move and gives the
  move to the other colour; the other colour's right-set, the dice and the piece
  placement (with the castling rights and the standard en-passant square) are as before.
\<close>

theorem next_player_effect:
  "ep_squares (next_player self) (turn (board self)) = []
   \<and> turn (board (next_player self)) = (\<not> turn (board self))
   \<and> ep_squares (next_player self) (\<not> turn (board self)) = ep_squares self (\<not> turn (board self))
   \<and> dice_roll (next_player self) = dice_roll self
   \<and> placement (board (next_player self)) = placement (board self)
   \<and> castling_rights (board (next_player self)) = castling_rights (board self)
   \<and> ep_square (board (next_player self)) = ep_square (board self)"
  by (simp add: next_player_def Let_def)

theorem next_player_effect_witness:
  "ep_squares (next_player K1) WHITE = []
   \<and> turn (board (next_player K1)) = BLACK
   \<and> ep_squares (next_player K1) BLACK = []
   \<and> dice_roll (next_player K1) = [PAWN, KING]
   \<and> placement (board (next_player K1)) 43 = Some (mk_piece KING WHITE)"
  using next_player_effect [of K1] by (simp add: example_defs)

subsection \<open>The number of dice\<close>

text \<open>
  Claim C8. With no die left \<^verbatim>\<open>get_moves\<close> returns the empty list; with more than three
  dice it raises \<^verbatim>\<open>ValueError\<close> (the spec's InvalidDiceCount) and returns nothing.
\<close>

theorem get_moves_dice_count:
  "(length (dice_roll self) = 0 \<longrightarrow> get_moves E self = Inr [])
   \<and> (3 < length (dice_roll self) \<longrightarrow> get_moves E self = Inl ValueError)"
  by (simp add: get_moves_def Let_def)

theorem get_moves_dice_count_witness:
  "get_moves kp_engine (K1\<lparr>dice_roll := []\<rparr>) = Inr []
   \<and> get_moves kp_engine (K1\<lparr>dice_roll := [PAWN, PAWN, KING, ROOK]\<rparr>) = Inl ValueError"
  using get_moves_dice_count [of "K1\<lparr>dice_roll := []\<rparr>" kp_engine]
        get_moves_dice_count [of "K1\<lparr>dice_roll := [PAWN, PAWN, KING, ROOK]\<rparr>" kp_engine]
  by simp

subsection \<open>King capture\<close>

text \<open>
  What \<^verbatim>\<open>is_game_over\<close> computes: it is true exactly when the destination of the move
  holds a king, of either colour; where the destination holds no piece of the colour to
  move, that is the opposing king. The query is a function of the state and returns
  only the truth value.
\<close>

theorem is_game_over_any_king:
  "(is_game_over self move \<longleftrightarrow>
      (\<exists>c. piece_at (board self) (to_square move) = Some \<lparr>piece_type = KING, color = c\<rparr>))
   \<and> ((\<forall>p. piece_at (board self) (to_square move) = Some p \<longrightarrow> color p \<noteq> turn (board self)) \<longrightarrow>
       (is_game_over self move \<longleftrightarrow>
          piece_at (board self) (to_square move)
            = Some \<lparr>piece_type = KING, color = (\<not> turn (board self))\<rparr>))"
proof -
  have any: "is_game_over self move \<longleftrightarrow>
      (\<exists>c. piece_at (board self) (to_square move) = Some \<lparr>piece_type = KING, color = c\<rparr>)"
  proof (cases "piece_at (board self) (to_square move)")
    case None
    then show ?thesis by (simp add: is_game_over_def)
  next
    case (Some p)
    then show ?thesis by (cases p) (auto simp: is_game_over_def)
  qed
  show ?thesis
  proof (intro conjI impI)
    show "is_game_over self move \<longleftrightarrow>
      (\<exists>c. piece_at (board self) (to_square move) = Some \<lparr>piece_type = KING, color = c\<rparr>)"
      by (rule any)
  next
    assume other: "\<forall>p. piece_at (board self) (to_square move) = Some p \<longrightarrow> color p \<noteq> turn (board self)"
    show "is_game_over self move \<longleftrightarrow>
          piece_at (board self) (to_square move)
            = Some \<lparr>piece_type = KING, color = (\<not> turn (board self))\<rparr>"
      using other any by auto
  qed
qed

theorem is_game_over_any_king_witness:
  "is_game_over K1 (mk_move 43 52)
   \<and> piece_at (board K1) (to_square (mk_move 43 52)) = Some \<lparr>piece_type = KING, color = BLACK\<rparr>
   \<and> is_game_over K1 (mk_move 34 43)
   \<and> \<not> is_game_over K1 (mk_move 34 42)"
  using is_game_over_any_king [of K1 "mk_move 43 52"]
        is_game_over_any_king [of K1 "mk_move 34 43"]
        is_game_over_any_king [of K1 "mk_move 34 42"]
  by (auto simp: piece_at_def example_defs)

text \<open>
  Claim C9. \<^verbatim>\<open>is_game_over\<close> is to be true exactly when the destination holds the king
  of the colour that is not to move. The code does not look at the colour. In \<open>K1\<close>,
  White to move, \<^verbatim>\<open>_get_pseudo_moves\<close> offers the pawn move c5-d6 (the en-passant move of
  the right d6, generated without a test that d6 is empty), d6 holds White's own king,
  and \<^verbatim>\<open>is_game_over\<close> answers \<^verbatim>\<open>True\<close>; the caller in \<^verbatim>\<open>main\<close> then announces the mover
  as the winner.
\<close>

theorem is_game_over_own_king:
  "is_game_over K1 (mk_move 34 43)
   \<and> turn (board K1) = WHITE
   \<and> piece_at (board K1) (to_square (mk_move 34 43)) = Some \<lparr>piece_type = KING, color = WHITE\<rparr>
   \<and> \<not> captures_opposing_king K1 (mk_move 34 43)
   \<and> mk_move 34 43 \<in> set (get_pseudo_moves kp_engine K1)"
  by (simp add: is_game_over_def captures_opposing_king_def piece_at_def example_defs
      get_pseudo_moves_def pseudo_legal_moves_dice_def ep_moves_of_def dice_match_def
      kp_engine_def kp_is_castling_def square_def square_file_def square_rank_def Let_def)

subsection \<open>A move without die consumption\<close>



subsection \<open>Granting a right\<close>

text \<open>
  Claim C4. After \<^verbatim>\<open>push\<close> with \<^verbatim>\<open>make_changes\<close> of a pawn move over two ranks, the
  midpoint of origin and destination is appended to the opponent's right-set exactly
  when a pawn of the opponent stands beside the destination (on the board after the
  move) and the midpoint is not yet in that right-set; after any other move the
  opponent's right-set is as before. A right-set without duplicates stays so, and the
  mover's right-set gains nothing.
\<close>

theorem push_grants_right:
  assumes ok: "push E self move True = Inr self'"
  shows "(if is_pawn_piece (piece_at (board self) (from_square move))
             \<and> \<bar>square_rank (to_square move) - square_rank (from_square move)\<bar> = 2
          then ep_squares self' (\<not> turn (board self)) =
                 (if adjacent_pawn_of (board self') (\<not> turn (board self)) (to_square move)
                     \<and> (from_square move + to_square move) div 2
                          \<notin> set (ep_squares self (\<not> turn (board self)))
                  then ep_squares self (\<not> turn (board self))
                         @ [(from_square move + to_square move) div 2]
                  else ep_squares self (\<not> turn (board self)))
          else ep_squares self' (\<not> turn (board self)) = ep_squares self (\<not> turn (board self)))
         \<and> (distinct (ep_squares self (\<not> turn (board self)))
              \<longrightarrow> distinct (ep_squares self' (\<not> turn (board self))))
         \<and> set (ep_squares self' (turn (board self))) \<subseteq> set (ep_squares self (turn (board self)))"
proof -
  note opp = push_ep_opponent [OF ok, unfolded has_adjacent_iff]
  note mov = push_ep_mover [OF ok]
  have a: "set (ep_squares self' (turn (board self))) \<subseteq> set (ep_squares self (turn (board self)))"
    unfolding mov using set_remove1_subset [of "to_square move" "ep_squares self (turn (board self))"] by auto
  have b: "distinct (ep_squares self (\<not> turn (board self)))
              \<longrightarrow> distinct (ep_squares self' (\<not> turn (board self)))"
    unfolding opp by simp
  from opp a b show ?thesis by (simp split: if_splits)
qed

lemma A0_push: "push kp_engine A0 (mk_move 51 35) True = Inr A1"
  by (simp add: A0_def A1_def push_defs example_defs kp_defs)

theorem push_grants_right_witness:
  "push kp_engine A0 (mk_move 51 35) True = Inr A1
   \<and> ep_squares A0 WHITE = [] \<and> ep_squares A1 WHITE = [43]
   \<and> adjacent_pawn_of (board A1) WHITE 35"
proof -
  have pawn: "is_pawn_piece (piece_at (board A0) (from_square (mk_move 51 35)))"
    by (simp add: A0_def example_defs is_pawn_piece_def piece_at_def)
  have two: "\<bar>square_rank (to_square (mk_move 51 35)) - square_rank (from_square (mk_move 51 35))\<bar> = 2"
    by (simp add: mk_move_def square_rank_def)
  have t: "turn (board A0) = BLACK" "ep_squares A0 WHITE = []"
    by (simp_all add: A0_def example_defs)
  have r: "ep_squares A1 WHITE = [43]"
    by (simp add: A1_def example_defs)
  from push_grants_right [OF A0_push] pawn two t r
  have "adjacent_pawn_of (board A1) WHITE (to_square (mk_move 51 35))"
    by (simp add: BLACK_def WHITE_def split: if_splits)
  with A0_push t r show ?thesis by (simp add: mk_move_def)
qed

subsection \<open>The en-passant capture\<close>

lemma captured_square:
  "square (square_file sq) (square_rank sq - d) = sq - 8 * d"
proof -
  have "sq div 8 * 8 + sq mod 8 = sq" by simp
  then show ?thesis by (simp add: square_def square_file_def square_rank_def algebra_simps)
qed

lemma ep_move_capture_case:
  assumes "piece_at (board self) (square (square_file sq + df) (square_rank sq - d)) = Some pawn"
    "piece_type pawn = PAWN" "color pawn = turn (board self)"
    "piece_at (board self) (sq - 8 * d) = Some captured"
    "piece_type captured = PAWN" "color captured = (\<not> turn (board self))"
    "m \<in> set [mk_move (square (square_file sq + df) (square_rank sq - d)) sq]"
  shows "to_square m = sq
       \<and> is_pawn_piece (piece_at (board self) (from_square m))
       \<and> piece_at (board self) (sq - 8 * d)
           = Some \<lparr>piece_type = PAWN, color = (\<not> turn (board self))\<rparr>
       \<and> from_square m \<noteq> sq - 8 * d"
proof -
  from assms(7) have m: "m = mk_move (square (square_file sq + df) (square_rank sq - d)) sq"
    by simp
  have a: "to_square m = sq" unfolding m mk_move_def by simp
  have f: "from_square m = square (square_file sq + df) (square_rank sq - d)"
    unfolding m mk_move_def by simp
  have b: "is_pawn_piece (piece_at (board self) (from_square m))"
    unfolding f assms(1) is_pawn_piece_def using assms(2) by simp
  have c: "captured = \<lparr>piece_type = PAWN, color = (\<not> turn (board self))\<rparr>"
    using assms(5,6) by (cases captured) simp
  have n: "from_square m \<noteq> sq - 8 * d"
  proof
    assume "from_square m = sq - 8 * d"
    with f assms(1,4) have "pawn = captured" by simp
    with assms(3,6) show False by simp
  qed
  show ?thesis using a b c n assms(4) by simp
qed

lemma ep_moves_of_capture:
  assumes "m \<in> set (ep_moves_of self sq)"
  shows "to_square m = sq
       \<and> is_pawn_piece (piece_at (board self) (from_square m))
       \<and> piece_at (board self) (sq + (if turn (board self) = BLACK then 8 else - 8))
           = Some \<lparr>piece_type = PAWN, color = (\<not> turn (board self))\<rparr>
       \<and> from_square m \<noteq> sq + (if turn (board self) = BLACK then 8 else - 8)"
proof -
  define d :: int where "d = (if turn (board self) = WHITE then 1 else - 1)"
  have cap: "sq + (if turn (board self) = BLACK then 8 else - 8) = sq - 8 * d"
    by (simp add: d_def WHITE_def BLACK_def)
  define F where "F = (\<lambda>df::int.
      if 0 \<le> square_file sq + df \<and> square_file sq + df \<le> 7
      then case piece_at (board self) (square (square_file sq + df) (square_rank sq - d)) of
             None \<Rightarrow> []
           | Some piece \<Rightarrow>
               if piece_type piece = PAWN \<and> color piece = turn (board self)
               then case piece_at (board self) (sq - 8 * d) of
                      None \<Rightarrow> []
                    | Some captured_piece \<Rightarrow>
                        if piece_type captured_piece = PAWN
                           \<and> color captured_piece = (\<not> turn (board self))
                        then [mk_move (square (square_file sq + df) (square_rank sq - d)) sq]
                        else []
               else []
      else [])"
  have "ep_moves_of self sq = concat (map F [- 1, 1])"
    unfolding ep_moves_of_def Let_def d_def [symmetric] captured_square F_def ..
  with assms obtain df where "m \<in> set (F df)" by auto
  then show ?thesis
    unfolding F_def cap
    apply (split if_split_asm)
     apply (split option.split_asm)
      apply simp
     apply (split if_split_asm)
      apply (split option.split_asm)
       apply simp
      apply (split if_split_asm)
       apply (rule ep_move_capture_case; assumption)
      apply simp
     apply simp
    apply simp
    done
qed

text \<open>
  What \<^verbatim>\<open>push\<close> with \<^verbatim>\<open>make_changes\<close> does with an en-passant move that
  \<^verbatim>\<open>pseudo_legal_moves_dice\<close> generates, when its destination is a right of the mover and
  holds no piece: the square one rank behind the destination (\<open>- 8\<close> for White, \<open>+ 8\<close>
  for Black) holds a pawn of the opponent and is not the origin, the call returns, the
  library's \<^verbatim>\<open>push\<close> has run on the board from which that pawn has been removed, and the
  first occurrence of the destination has left the mover's right-set. Where the
  right-set had no duplicates the right is gone, so the same move is no en-passant
  capture in the state that results.
\<close>

theorem push_en_passant_generated:
  assumes gen: "move \<in> set (ep_moves_of self (to_square move))"
    and right: "to_square move \<in> set (ep_squares self (turn (board self)))"
    and empty: "piece_at (board self) (to_square move) = None"
  shows "piece_at (board self) (to_square move + (if turn (board self) = BLACK then 8 else - 8))
              = Some \<lparr>piece_type = PAWN, color = (\<not> turn (board self))\<rparr>
     \<and> (\<exists>self'. push E self move True = Inr self'
     \<and> board self' =
         (board_push E (remove_piece_at (board self)
              (to_square move + (if turn (board self) = BLACK then 8 else - 8))) move)
           \<lparr>turn := turn (board self), ep_square := None\<rparr>
     \<and> piece_at (remove_piece_at (board self)
              (to_square move + (if turn (board self) = BLACK then 8 else - 8)))
           (to_square move + (if turn (board self) = BLACK then 8 else - 8)) = None
     \<and> ep_squares self' (turn (board self))
         = remove1 (to_square move) (ep_squares self (turn (board self)))
     \<and> (distinct (ep_squares self (turn (board self))) \<longrightarrow>
          to_square move \<notin> set (ep_squares self' (turn (board self)))
          \<and> \<not> ep_capture_cond self' move True))"
proof -
  note g = ep_moves_of_capture [OF gen]
  from g have pawn: "is_pawn_piece (piece_at (board self) (from_square move))"
    and enemy: "piece_at (board self) (to_square move + (if turn (board self) = BLACK then 8 else - 8))
        = Some \<lparr>piece_type = PAWN, color = (\<not> turn (board self))\<rparr>"
    and other: "from_square move \<noteq> to_square move + (if turn (board self) = BLACK then 8 else - 8)"
    by simp_all
  from pawn have "piece_at (board self) (from_square move) \<noteq> None"
    by (auto simp: is_pawn_piece_def split: option.splits)
  then obtain self' where ok: "push E self move True = Inr self'"
    using push_succeeds [of self move True E] other by blast
  have cond: "ep_capture_cond self move True"
    using pawn right empty by (simp add: ep_capture_cond_def)
  have b: "board self' =
         (board_push E (remove_piece_at (board self)
              (to_square move + (if turn (board self) = BLACK then 8 else - 8))) move)
           \<lparr>turn := turn (board self), ep_square := None\<rparr>"
    using push_board [OF ok] cond by simp
  have gone: "piece_at (remove_piece_at (board self)
              (to_square move + (if turn (board self) = BLACK then 8 else - 8)))
           (to_square move + (if turn (board self) = BLACK then 8 else - 8)) = None"
    by (simp add: piece_at_def remove_piece_at_def)
  have r: "ep_squares self' (turn (board self))
         = remove1 (to_square move) (ep_squares self (turn (board self)))"
    using push_ep_mover [OF ok] cond by simp
  have once: "distinct (ep_squares self (turn (board self))) \<longrightarrow>
          to_square move \<notin> set (ep_squares self' (turn (board self)))
          \<and> \<not> ep_capture_cond self' move True"
  proof
    assume d: "distinct (ep_squares self (turn (board self)))"
    then have n: "to_square move \<notin> set (ep_squares self' (turn (board self)))"
      unfolding r by simp
    moreover have "turn (board self') = turn (board self)"
      using push_turn [OF ok] .
    ultimately show "to_square move \<notin> set (ep_squares self' (turn (board self)))
          \<and> \<not> ep_capture_cond self' move True"
      by (simp add: ep_capture_cond_def)
  qed
  from ok b gone r once have "\<exists>self'. push E self move True = Inr self'
     \<and> board self' =
         (board_push E (remove_piece_at (board self)
              (to_square move + (if turn (board self) = BLACK then 8 else - 8))) move)
           \<lparr>turn := turn (board self), ep_square := None\<rparr>
     \<and> piece_at (remove_piece_at (board self)
              (to_square move + (if turn (board self) = BLACK then 8 else - 8)))
           (to_square move + (if turn (board self) = BLACK then 8 else - 8)) = None
     \<and> ep_squares self' (turn (board self))
         = remove1 (to_square move) (ep_squares self (turn (board self)))
     \<and> (distinct (ep_squares self (turn (board self))) \<longrightarrow>
          to_square move \<notin> set (ep_squares self' (turn (board self)))
          \<and> \<not> ep_capture_cond self' move True)"
    by blast
  with enemy show ?thesis by blast
qed

lemma B1_push:
  "push kp_engine B1 (mk_move 36 43) True
     = Inr \<lparr>board = put 43 PAWN WHITE (put 52 KING BLACK (put 4 KING WHITE (empty_board WHITE))),
            ep_squares = (\<lambda>_. []), dice_roll = [KING]\<rparr>"
  by (simp add: B1_def push_defs example_defs kp_defs)

theorem push_en_passant_generated_witness:
  "mk_move 36 43 \<in> set (ep_moves_of B1 (to_square (mk_move 36 43)))
   \<and> to_square (mk_move 36 43) \<in> set (ep_squares B1 (turn (board B1)))
   \<and> piece_at (board B1) (to_square (mk_move 36 43)) = None
   \<and> distinct (ep_squares B1 (turn (board B1)))
   \<and> piece_at (board B1) 35 = Some (mk_piece PAWN BLACK)
   \<and> (\<exists>self'. push kp_engine B1 (mk_move 36 43) True = Inr self'
         \<and> piece_at (board self') 35 = None
         \<and> piece_at (board self') 43 = Some (mk_piece PAWN WHITE)
         \<and> ep_squares self' WHITE = []
         \<and> \<not> ep_capture_cond self' (mk_move 36 43) True)"
proof -
  have gen: "mk_move 36 43 \<in> set (ep_moves_of B1 (to_square (mk_move 36 43)))"
    by (simp add: ep_moves_of_def B1_def example_defs piece_at_def square_def square_file_def
        square_rank_def Let_def)
  have right: "to_square (mk_move 36 43) \<in> set (ep_squares B1 (turn (board B1)))"
    by (simp add: B1_def example_defs)
  have empty: "piece_at (board B1) (to_square (mk_move 36 43)) = None"
    by (simp add: B1_def example_defs piece_at_def)
  have d: "distinct (ep_squares B1 (turn (board B1)))"
    by (simp add: B1_def example_defs)
  have victim: "piece_at (board B1) 35 = Some (mk_piece PAWN BLACK)"
    by (simp add: B1_def example_defs piece_at_def)
  from push_en_passant_generated [OF gen right empty, of kp_engine] d
  obtain self' where ok: "push kp_engine B1 (mk_move 36 43) True = Inr self'"
    and once: "\<not> ep_capture_cond self' (mk_move 36 43) True"
    by blast
  from ok B1_push have "piece_at (board self') 35 = None"
    "piece_at (board self') 43 = Some (mk_piece PAWN WHITE)" "ep_squares self' WHITE = []"
    by (auto simp: example_defs piece_at_def)
  with gen right empty d victim ok once show ?thesis by blast
qed

lemma D1_moves: "get_pseudo_moves kp_engine D1 = [mk_move 35 43]"
  by (simp add: moves_defs piece_at_def D1_def example_defs kp_defs kp_gen_defs Let_def)

lemma D1_push: "push kp_engine (copy D1) (mk_move 35 43) True = Inl AssertionError"
  by (simp add: copy_def D1_def push_defs example_defs kp_defs)

text \<open>
  Claim C3. When \<^verbatim>\<open>push\<close> with \<^verbatim>\<open>make_changes\<close> is given a pawn move whose destination
  is a right of the mover and holds no piece, it is to remove the enemy pawn one rank
  behind the destination and the right. The block \<open>Detect custom en passant captures\<close>
  does not look at the origin of the move nor at what it removes. In \<open>D1\<close>, White to
  move, \<^verbatim>\<open>_get_pseudo_moves\<close> offers the straight step d5-d6 of the white pawn; d6 is a
  right of White and empty, so the block runs; the square one rank behind d6 is d5, the
  origin, and holds no enemy pawn but the moving pawn itself, which the block removes;
  the library's \<^verbatim>\<open>push\<close> then finds the origin empty and \<^verbatim>\<open>push\<close> raises
  \<^verbatim>\<open>AssertionError\<close>.
\<close>

theorem push_removes_moving_pawn:
  "turn (board D1) = WHITE
   \<and> mk_move 35 43 \<in> set (get_pseudo_moves kp_engine D1)
   \<and> is_pawn_piece (piece_at (board D1) (from_square (mk_move 35 43)))
   \<and> to_square (mk_move 35 43) \<in> set (ep_squares D1 (turn (board D1)))
   \<and> piece_at (board D1) (to_square (mk_move 35 43)) = None
   \<and> ep_capture_cond D1 (mk_move 35 43) True
   \<and> to_square (mk_move 35 43) - 8 = from_square (mk_move 35 43)
   \<and> piece_at (board D1) (to_square (mk_move 35 43) - 8) = Some (mk_piece PAWN WHITE)
   \<and> piece_at (board (ep_capture D1 (mk_move 35 43))) (from_square (mk_move 35 43)) = None
   \<and> push kp_engine D1 (mk_move 35 43) True = Inl AssertionError"
proof -
  have offered: "mk_move 35 43 \<in> set (get_pseudo_moves kp_engine D1)"
    unfolding D1_moves by simp
  have state: "turn (board D1) = WHITE"
    "is_pawn_piece (piece_at (board D1) (from_square (mk_move 35 43)))"
    "to_square (mk_move 35 43) \<in> set (ep_squares D1 (turn (board D1)))"
    "piece_at (board D1) (to_square (mk_move 35 43)) = None"
    "to_square (mk_move 35 43) - 8 = from_square (mk_move 35 43)"
    "piece_at (board D1) (to_square (mk_move 35 43) - 8) = Some (mk_piece PAWN WHITE)"
    by (simp_all add: D1_def example_defs is_pawn_piece_def piece_at_def)
  from state have cond: "ep_capture_cond D1 (mk_move 35 43) True"
    by (simp add: ep_capture_cond_def)
  have removed: "piece_at (board (ep_capture D1 (mk_move 35 43))) (from_square (mk_move 35 43)) = None"
    by (simp add: ep_capture_def D1_def example_defs piece_at_def remove_piece_at_def Let_def)
  have raises: "push kp_engine D1 (mk_move 35 43) True = Inl AssertionError"
    using D1_push by (simp add: copy_self)
  from offered state cond removed raises show ?thesis by simp
qed

subsection \<open>The invariant of the right-sets\<close>

lemma rank_bounds: "square_rank x = k \<longleftrightarrow> 8 * k \<le> x \<and> x < 8 * k + 8"
  unfolding square_rank_def by linarith

lemma midpoint_rank_white:
  "square_rank f = 1 \<Longrightarrow> square_rank t = 3 \<Longrightarrow> square_rank ((f + t) div 2) = 2"
  unfolding rank_bounds by linarith

lemma midpoint_rank_black:
  "square_rank f = 6 \<Longrightarrow> square_rank t = 4 \<Longrightarrow> square_rank ((f + t) div 2) = 5"
  unfolding rank_bounds by linarith

lemma push_ep_unchanged:
  "push E self move False = Inr self' \<Longrightarrow> ep_squares self' = ep_squares self"
  by (auto simp: push_def super_push_def Let_def ep_capture_cond_def split: if_splits)

lemma ep_inv_init: "ep_inv (init b)"
  by (simp add: ep_inv_def init_def)

lemma ep_inv_next_player: "ep_inv self \<Longrightarrow> ep_inv (next_player self)"
  by (simp add: ep_inv_def next_player_def Let_def WHITE_def BLACK_def)

lemma list_all_remove1: "list_all P xs \<Longrightarrow> list_all P (remove1 x xs)"
  by (induction xs) auto

lemma ep_inv_mover:
  assumes ok: "push E self move mc = Inr self'"
    and d: "distinct (ep_squares self (turn (board self)))"
    and r: "list_all P (ep_squares self (turn (board self)))"
  shows "distinct (ep_squares self' (turn (board self)))
       \<and> list_all P (ep_squares self' (turn (board self)))"
  unfolding push_ep_mover [OF ok] using d r by (simp add: list_all_remove1)

lemma ep_inv_opponent:
  assumes ok: "push E self move True = Inr self'"
    and d: "distinct (ep_squares self (\<not> turn (board self)))"
    and r: "list_all P (ep_squares self (\<not> turn (board self)))"
    and mid: "is_pawn_piece (piece_at (board self) (from_square move))
         \<and> \<bar>square_rank (to_square move) - square_rank (from_square move)\<bar> = 2
       \<Longrightarrow> P ((from_square move + to_square move) div 2)"
  shows "distinct (ep_squares self' (\<not> turn (board self)))
       \<and> list_all P (ep_squares self' (\<not> turn (board self)))"
  unfolding push_ep_opponent [OF ok] using d r mid by simp

lemma ep_inv_push:
  assumes inv: "ep_inv self" and home: "home_double_step self move"
    and ok: "push E self move mc = Inr self'"
  shows "ep_inv self'"
proof (cases mc)
  case False
  with ok have "push E self move False = Inr self'" by simp
  then have "ep_squares self' = ep_squares self" by (rule push_ep_unchanged)
  with inv show ?thesis by (simp add: ep_inv_def)
next
  case mc: True
  from ok mc have okT: "push E self move True = Inr self'" by simp
  show ?thesis
  proof (cases "turn (board self)")
    case True
    from inv have i: "distinct (ep_squares self True)" "distinct (ep_squares self False)"
      "list_all (\<lambda>sq. square_rank sq = 5) (ep_squares self True)"
      "list_all (\<lambda>sq. square_rank sq = 2) (ep_squares self False)"
      by (simp_all add: ep_inv_def WHITE_def BLACK_def)
    have w: "distinct (ep_squares self' True) \<and> list_all (\<lambda>sq. square_rank sq = 5) (ep_squares self' True)"
      using ep_inv_mover [OF ok, of "\<lambda>sq. square_rank sq = 5"] i True by simp
    have m: "is_pawn_piece (piece_at (board self) (from_square move))
         \<and> \<bar>square_rank (to_square move) - square_rank (from_square move)\<bar> = 2
       \<Longrightarrow> square_rank ((from_square move + to_square move) div 2) = 2"
      using home True by (simp add: home_double_step_def WHITE_def midpoint_rank_white)
    have b: "distinct (ep_squares self' False) \<and> list_all (\<lambda>sq. square_rank sq = 2) (ep_squares self' False)"
      using ep_inv_opponent [OF okT, of "\<lambda>sq. square_rank sq = 2"] i True m by simp
    from w b show ?thesis by (simp add: ep_inv_def WHITE_def BLACK_def)
  next
    case False
    from inv have i: "distinct (ep_squares self True)" "distinct (ep_squares self False)"
      "list_all (\<lambda>sq. square_rank sq = 5) (ep_squares self True)"
      "list_all (\<lambda>sq. square_rank sq = 2) (ep_squares self False)"
      by (simp_all add: ep_inv_def WHITE_def BLACK_def)
    have b: "distinct (ep_squares self' False) \<and> list_all (\<lambda>sq. square_rank sq = 2) (ep_squares self' False)"
      using ep_inv_mover [OF ok, of "\<lambda>sq. square_rank sq = 2"] i False by simp
    have m: "is_pawn_piece (piece_at (board self) (from_square move))
         \<and> \<bar>square_rank (to_square move) - square_rank (from_square move)\<bar> = 2
       \<Longrightarrow> square_rank ((from_square move + to_square move) div 2) = 5"
      using home False by (simp add: home_double_step_def WHITE_def midpoint_rank_black)
    have w: "distinct (ep_squares self' True) \<and> list_all (\<lambda>sq. square_rank sq = 5) (ep_squares self' True)"
      using ep_inv_opponent [OF okT, of "\<lambda>sq. square_rank sq = 5"] i False m by simp
    from w b show ?thesis by (simp add: ep_inv_def WHITE_def BLACK_def)
  qed
qed

lemma ep_inv_disjoint:
  "ep_inv self \<Longrightarrow> set (ep_squares self WHITE) \<inter> set (ep_squares self BLACK) = {}"
  by (auto simp: ep_inv_def list_all_iff)

lemma kp_moves_from:
  assumes "sq \<in> set all_squares" and "placement b sq = Some p" and "color p = turn b"
    and "m \<in> set (case piece_type p of KING \<Rightarrow> kp_king_moves b sq
                    | PAWN \<Rightarrow> kp_pawn_moves b sq | _ \<Rightarrow> [])"
  shows "m \<in> set (kp_pseudo_legal_moves b)"
  unfolding kp_pseudo_legal_moves_def using assms by (auto intro!: bexI [of _ sq])

lemma square_52: "52 \<in> set all_squares"
  by (simp add: all_squares_def coordinates_def square_def)

lemma A1_king_move: "mk_move 52 43 \<in> set (get_pseudo_moves kp_engine A1)"
proof -
  have "mk_move 52 43 \<in> set (kp_pseudo_legal_moves (board A1))"
    by (rule kp_moves_from [OF square_52, of _ "mk_piece KING BLACK"])
       (simp_all add: A1_def example_defs kp_king_moves_def kp_empty_def kp_enemy_def
          square_def square_file_def square_rank_def)
  then show ?thesis
    by (simp add: get_pseudo_moves_def pseudo_legal_moves_dice_def dice_match_def kp_engine_def
        kp_is_castling_def piece_at_def A1_def example_defs square_file_def)
qed

lemma A1_push: "push kp_engine A1 (mk_move 52 43) True = Inr A2"
  by (simp add: A1_def A2_def push_defs example_defs kp_defs)

text \<open>
  Claim C7, as the spec states it, fails: a right does not stay on an unoccupied square.
  After Black's d7-d5 (state \<open>A1\<close>) White holds the right d6, which is empty; Black is
  still to move, \<^verbatim>\<open>_get_pseudo_moves\<close> offers the king move e7-d6, and after it (state
  \<open>A2\<close>) the right d6 is still in White's right-set with the black king on it. (\<^verbatim>\<open>push\<close>
  itself expects this: an en-passant capture requires \<^verbatim>\<open>not self.piece_at(move.to_square)\<close>.)
\<close>

theorem ep_invariant_counterexample:
  "spec_ep_invariant A1
   \<and> push kp_engine A0 (mk_move 51 35) True = Inr A1
   \<and> mk_move 52 43 \<in> set (get_pseudo_moves kp_engine A1)
   \<and> push kp_engine A1 (mk_move 52 43) True = Inr A2
   \<and> \<not> spec_ep_invariant A2
   \<and> ep_squares A2 WHITE = [43]
   \<and> piece_at (board A2) 43 = Some (mk_piece KING BLACK)"
proof -
  have "spec_ep_invariant A1"
    by (simp add: spec_ep_invariant_def A1_def example_defs piece_at_def)
  moreover have "\<not> spec_ep_invariant A2" "ep_squares A2 WHITE = [43]"
    "piece_at (board A2) 43 = Some (mk_piece KING BLACK)"
    by (simp_all add: spec_ep_invariant_def A2_def example_defs piece_at_def)
  ultimately show ?thesis using A0_push A1_king_move A1_push by simp
qed

subsection \<open>The selection with two dice\<close>

lemma candidate_push:
  assumes "move \<in> set (get_pseudo_moves E self)" and "\<not> is_castling E (board self) move"
    and "\<not> removes_mover self move"
  shows "\<exists>board_p1. push E (copy self) move True = Inr board_p1"
proof -
  from assms(1,2) have "piece_at (board self) (from_square move) \<noteq> None"
    by (auto simp: get_pseudo_moves_def dice_match_def Let_def split: option.splits)
  then show ?thesis
    unfolding copy_self using assms(3) by (intro push_succeeds) (simp_all add: removes_mover_def)
qed

lemma push_returns_iff:
  "push_returns E self move \<longleftrightarrow> (\<exists>board_p1. push E (copy self) move True = Inr board_p1)"
  by (simp add: push_returns_def split: sum.splits)

lemma lookahead_2_safe:
  assumes "\<forall>move \<in> set (get_pseudo_moves E self).
             \<not> is_castling E (board self) move \<longrightarrow> \<not> removes_mover self move"
  shows "lookahead_2_returns E self"
  unfolding lookahead_2_returns_def list_all_iff push_returns_iff
  using assms candidate_push by blast

lemma occupied_rights_safe:
  assumes "list_all (\<lambda>sq. piece_at (board self) sq \<noteq> None) (ep_squares self (turn (board self)))"
  shows "\<not> removes_mover self move"
  using assms by (auto simp: removes_mover_def ep_capture_cond_def list_all_iff)

lemma select_counted_map:
  "select_counted self ms (map d ms) mx = filter (\<lambda>m. d m = mx \<or> captures_king self m) ms"
  unfolding select_counted_def by (induction ms) auto

lemma enumerate_Cons: "enumerate n (m # ms) = (n, m) # enumerate (Suc n) ms"
  by simp

lemma moves_2_loop_counts:
  assumes "\<forall>m \<in> set ms. \<not> is_castling E (board self) m
             \<longrightarrow> (\<exists>b1. push E (copy self) m True = Inr b1)"
    and "length pre = n"
  shows "moves_2_loop E self (enumerate n ms) (pre @ map (\<lambda>_. 1) ms @ post, mx)
         = Inr (pre @ map (spec_depth_2 E self) ms @ post,
                if \<exists>m \<in> set ms. spec_depth_2 E self m = 2 then 2 else mx)"
  using assms
proof (induction ms arbitrary: n pre mx)
  case Nil
  then show ?case by simp
next
  case (Cons m ms)
  let ?d = "spec_depth_2 E self"
  let ?mx = "if ?d m = 2 then 2 else mx"
  have len: "length (pre @ [?d m]) = Suc n"
    using Cons.prems by simp
  have rest: "\<forall>m \<in> set ms. \<not> is_castling E (board self) m
             \<longrightarrow> (\<exists>b1. push E (copy self) m True = Inr b1)"
    using Cons.prems by simp
  have upd: "(pre @ map (\<lambda>_. 1) (m # ms) @ post)[n := 2] = (pre @ [2]) @ map (\<lambda>_. 1) ms @ post"
    using Cons.prems(2) by (simp add: list_update_append)
  have same: "pre @ map (\<lambda>_. 1) (m # ms) @ post = (pre @ [1]) @ map (\<lambda>_. 1) ms @ post"
    by simp
  have step: "moves_2_loop E self (enumerate n (m # ms)) (pre @ map (\<lambda>_. 1) (m # ms) @ post, mx)
      = moves_2_loop E self (enumerate (Suc n) ms) ((pre @ [?d m]) @ map (\<lambda>_. 1) ms @ post, ?mx)"
  proof (cases "is_castling E (board self) m")
    case True
    then have d: "?d m = 2" by (simp add: spec_depth_2_def)
    show ?thesis
      unfolding d enumerate_Cons moves_2_loop.simps upd using True by simp
  next
    case False
    with Cons.prems obtain b1 where b1: "push E (copy self) m True = Inr b1" by auto
    show ?thesis
    proof (cases "get_pseudo_moves E b1 = []")
      case True
      then have d: "?d m = 1"
        using False b1 by (simp add: spec_depth_2_def has_continuation_def)
      have "moves_2_loop E self (enumerate n (m # ms)) (pre @ map (\<lambda>_. 1) (m # ms) @ post, mx)
        = moves_2_loop E self (enumerate (Suc n) ms) (pre @ map (\<lambda>_. 1) (m # ms) @ post, mx)"
        unfolding enumerate_Cons moves_2_loop.simps using False b1 True by simp
      then show ?thesis unfolding d same by simp
    next
      case nonempty: False
      then have d: "?d m = 2"
        using b1 by (simp add: spec_depth_2_def has_continuation_def)
      show ?thesis
        unfolding d enumerate_Cons moves_2_loop.simps upd using False b1 nonempty by simp
    qed
  qed
  also have "\<dots> = Inr ((pre @ [?d m]) @ map ?d ms @ post,
                if \<exists>m \<in> set ms. ?d m = 2 then 2 else ?mx)"
    by (rule Cons.IH [OF rest len])
  also have "\<dots> = Inr (pre @ map ?d (m # ms) @ post,
                if \<exists>m \<in> set (m # ms). ?d m = 2 then 2 else mx)"
    by simp
  finally show ?case .
qed

lemma spec_depth_2_range: "spec_depth_2 E self m = 1 \<or> spec_depth_2 E self m = 2"
  by (simp add: spec_depth_2_def)

lemma spec_max_depth_2:
  "spec_max_depth (spec_depth_2 E self) ms
     = (if \<exists>m \<in> set ms. spec_depth_2 E self m = 2 then 2 else 1)"
proof (cases "\<exists>m \<in> set ms. spec_depth_2 E self m = 2")
  case True
  have "Max (insert 1 (spec_depth_2 E self ` set ms)) = 2"
  proof (rule Max_eqI)
    show "finite (insert 1 (spec_depth_2 E self ` set ms))" by simp
    show "2 \<in> insert 1 (spec_depth_2 E self ` set ms)" using True by force
    fix y assume "y \<in> insert 1 (spec_depth_2 E self ` set ms)"
    then show "y \<le> 2" by (auto simp: spec_depth_2_def)
  qed
  with True show ?thesis by (simp add: spec_max_depth_def)
next
  case False
  then have "\<forall>m \<in> set ms. spec_depth_2 E self m = 1"
    using spec_depth_2_range [of E self] by blast
  then have e: "insert 1 (spec_depth_2 E self ` set ms) = {1}" by auto
  have "Max (insert 1 (spec_depth_2 E self ` set ms)) = 1" unfolding e by simp
  with False show ?thesis by (simp add: spec_max_depth_def)
qed

lemma get_moves_2_char:
  assumes "lookahead_2_returns E self"
  shows "get_moves_2 E self
     = Inr (spec_select (spec_depth_2 E self) (captures_king self) (get_pseudo_moves E self))"
proof -
  let ?ms = "get_pseudo_moves E self"
  have ok: "\<forall>m \<in> set ?ms. \<not> is_castling E (board self) m
             \<longrightarrow> (\<exists>b1. push E (copy self) m True = Inr b1)"
    using assms unfolding lookahead_2_returns_def list_all_iff push_returns_iff by blast
  have "moves_2_loop E self (enumerate 0 ?ms) ([] @ map (\<lambda>_. 1) ?ms @ [], 1)
         = Inr ([] @ map (spec_depth_2 E self) ?ms @ [],
                if \<exists>m \<in> set ?ms. spec_depth_2 E self m = 2 then 2 else 1)"
    by (rule moves_2_loop_counts [OF ok]) simp
  then have loop: "moves_2_loop E self (enumerate 0 ?ms) (map (\<lambda>_. 1) ?ms, 1)
         = Inr (map (spec_depth_2 E self) ?ms, spec_max_depth (spec_depth_2 E self) ?ms)"
    by (simp add: spec_max_depth_2)
  show ?thesis
    unfolding get_moves_2_def Let_def loop
    by (simp add: select_counted_map spec_select_def)
qed

lemma moves_2_loop_raises:
  assumes "\<exists>m \<in> set ms. \<not> is_castling E (board self) m \<and> \<not> push_returns E self m"
  shows "\<exists>e. moves_2_loop E self (enumerate n ms) st = Inl e"
  using assms
proof (induction ms arbitrary: n st)
  case Nil
  then show ?case by simp
next
  case (Cons m ms)
  obtain counts mx where st: "st = (counts, mx)" by (cases st)
  show ?case
  proof (cases "is_castling E (board self) m")
    case True
    with Cons.prems have "\<exists>m \<in> set ms. \<not> is_castling E (board self) m \<and> \<not> push_returns E self m"
      by auto
    from Cons.IH [OF this] True show ?thesis by (simp add: st)
  next
    case False
    show ?thesis
    proof (cases "push E (copy self) m True")
      case (Inl e)
      with False show ?thesis by (simp add: st)
    next
      case (Inr b1)
      then have "push_returns E self m" by (simp add: push_returns_def)
      with Cons.prems have "\<exists>m \<in> set ms. \<not> is_castling E (board self) m \<and> \<not> push_returns E self m"
        by auto
      from Cons.IH [OF this] False Inr show ?thesis by (simp add: st Let_def)
    qed
  qed
qed

lemma get_moves_2_raises:
  assumes "\<not> lookahead_2_returns E self"
  shows "\<exists>e. get_moves_2 E self = Inl e"
proof -
  from assms have "\<exists>m \<in> set (get_pseudo_moves E self).
      \<not> is_castling E (board self) m \<and> \<not> push_returns E self m"
    by (auto simp: lookahead_2_returns_def list_all_iff)
  from moves_2_loop_raises [OF this]
  obtain e where "moves_2_loop E self (enumerate 0 (get_pseudo_moves E self))
      (map (\<lambda>_. 1) (get_pseudo_moves E self), 1) = Inl e" by blast
  then show ?thesis by (simp add: get_moves_2_def Let_def)
qed

lemma K1_ep_move: "mk_move 34 43 \<in> set (get_pseudo_moves kp_engine K1)"
  by (simp add: moves_defs piece_at_def example_defs kp_engine_def
      kp_is_castling_def square_def square_file_def square_rank_def Let_def)

lemma K1_pawn_step: "mk_move 34 42 \<in> set (get_pseudo_moves kp_engine K1)"
  by (simp add: moves_defs piece_at_def example_defs kp_defs kp_gen_defs Let_def)

lemma K1_push_ep: "push kp_engine (copy K1) (mk_move 34 43) True = Inr K2"
  by (simp add: copy_self K2_def push_defs example_defs kp_defs)

lemma K1_push_step: "push kp_engine (copy K1) (mk_move 34 42) True = Inr K3"
  by (simp add: copy_self K3_def push_defs example_defs kp_defs)

lemma K2_moves: "get_pseudo_moves kp_engine K2 = []"
  by (simp add: moves_defs piece_at_def K2_def example_defs kp_defs kp_gen_defs Let_def)

lemma K3_moves: "get_pseudo_moves kp_engine K3 \<noteq> []"
  by (simp add: moves_defs piece_at_def K3_def example_defs kp_defs kp_gen_defs Let_def)

lemma K1_continuations:
  "\<not> has_continuation kp_engine K1 (mk_move 34 43)" "has_continuation kp_engine K1 (mk_move 34 42)"
  by (simp_all add: has_continuation_def K1_push_ep K1_push_step K2_moves K3_moves)

lemma K1_lookahead: "lookahead_2_returns kp_engine K1"
proof (rule lookahead_2_safe, intro ballI impI)
  fix move
  show "\<not> removes_mover K1 move"
    by (rule occupied_rights_safe) (simp add: piece_at_def example_defs)
qed

lemma K1_no_castling:
  "\<not> is_castling kp_engine (board K1) (mk_move 34 43)"
  by (simp add: kp_engine_def kp_is_castling_def example_defs)

lemma K1_depths:
  "spec_depth_2 kp_engine K1 (mk_move 34 43) = 1" "spec_depth_2 kp_engine K1 (mk_move 34 42) = 2"
  using K1_continuations K1_no_castling by (simp_all add: spec_depth_2_def)

text \<open>
  What \<^verbatim>\<open>_get_moves_2\<close> computes. It returns exactly when \<^verbatim>\<open>push\<close> raises for no
  candidate of the lookahead, which is so when no candidate steps a pawn straight onto
  a right of its colour. The depth of a candidate is then 2 exactly when it is a
  castling move or when \<^verbatim>\<open>_get_pseudo_moves\<close> on a copy, after \<^verbatim>\<open>push\<close> of the move with
  \<^verbatim>\<open>make_changes\<close>, is not empty, and 1 otherwise (\<open>spec_depth_2\<close>); the result is the list
  of the candidates whose depth is the maximum over all candidates, together with every
  candidate whose destination holds a king, of either colour. So once a candidate has a
  continuation, every returned move has depth 2 or lands on a king. Where no candidate
  lands on a king of the mover's colour, the result is the selection of the spec.
\<close>

theorem get_moves_2_selection:
  "(lookahead_2_returns E self \<longrightarrow>
      get_moves_2 E self
        = Inr (spec_select (spec_depth_2 E self) (captures_king self) (get_pseudo_moves E self)))
   \<and> (\<not> lookahead_2_returns E self \<longrightarrow> (\<exists>e. get_moves_2 E self = Inl e))
   \<and> ((\<forall>m \<in> set (get_pseudo_moves E self).
          \<not> is_castling E (board self) m \<longrightarrow> \<not> removes_mover self m)
        \<longrightarrow> lookahead_2_returns E self)
   \<and> (\<forall>m \<in> set (spec_select (spec_depth_2 E self) (captures_king self) (get_pseudo_moves E self)).
         (\<exists>c \<in> set (get_pseudo_moves E self). has_continuation E self c)
           \<longrightarrow> spec_depth_2 E self m = 2 \<or> captures_king self m)
   \<and> (lookahead_2_returns E self
        \<and> (\<forall>m \<in> set (get_pseudo_moves E self). captures_king self m \<longrightarrow> captures_opposing_king self m)
         \<longrightarrow> get_moves_2 E self = Inr (spec_get_moves_2 E self))"
proof (intro conjI ballI impI)
  assume "lookahead_2_returns E self"
  then show "get_moves_2 E self
     = Inr (spec_select (spec_depth_2 E self) (captures_king self) (get_pseudo_moves E self))"
    by (rule get_moves_2_char)
next
  assume "\<not> lookahead_2_returns E self"
  then show "\<exists>e. get_moves_2 E self = Inl e" by (rule get_moves_2_raises)
next
  assume "\<forall>m \<in> set (get_pseudo_moves E self).
          \<not> is_castling E (board self) m \<longrightarrow> \<not> removes_mover self m"
  then show "lookahead_2_returns E self" by (rule lookahead_2_safe)
next
  fix m
  assume m: "m \<in> set (spec_select (spec_depth_2 E self) (captures_king self) (get_pseudo_moves E self))"
    and c: "\<exists>c \<in> set (get_pseudo_moves E self). has_continuation E self c"
  from c have "\<exists>c \<in> set (get_pseudo_moves E self). spec_depth_2 E self c = 2"
    by (auto simp: spec_depth_2_def)
  then have "spec_max_depth (spec_depth_2 E self) (get_pseudo_moves E self) = 2"
    unfolding spec_max_depth_2 by simp
  with m show "spec_depth_2 E self m = 2 \<or> captures_king self m"
    by (simp add: spec_select_def)
next
  assume "lookahead_2_returns E self
        \<and> (\<forall>m \<in> set (get_pseudo_moves E self). captures_king self m \<longrightarrow> captures_opposing_king self m)"
  then have l: "lookahead_2_returns E self"
    and h: "\<forall>m \<in> set (get_pseudo_moves E self). captures_king self m \<longrightarrow> captures_opposing_king self m"
    by simp_all
  have "\<And>m. captures_opposing_king self m \<Longrightarrow> captures_king self m"
    by (simp add: captures_opposing_king_def captures_king_def)
  with h have "spec_select (spec_depth_2 E self) (captures_king self) (get_pseudo_moves E self)
      = spec_get_moves_2 E self"
    unfolding spec_get_moves_2_def spec_select_def by (intro filter_cong) auto
  then show "get_moves_2 E self = Inr (spec_get_moves_2 E self)"
    using get_moves_2_char [OF l] by simp
qed

lemma A1_no_king_capture:
  "\<forall>m \<in> set (get_pseudo_moves kp_engine A1). \<not> captures_king A1 m"
  by (simp add: moves_defs captures_king_def piece_at_def A1_def example_defs kp_defs kp_gen_defs Let_def)

lemma A1_lookahead: "lookahead_2_returns kp_engine A1"
proof (rule lookahead_2_safe, intro ballI impI)
  fix move
  show "\<not> removes_mover A1 move"
    by (rule occupied_rights_safe) (simp add: A1_def example_defs)
qed

lemma D1_lookahead: "\<not> lookahead_2_returns kp_engine D1"
proof -
  have "\<not> is_castling kp_engine (board D1) (mk_move 35 43)"
    by (simp add: kp_engine_def kp_is_castling_def D1_def example_defs)
  then show ?thesis
    by (simp add: lookahead_2_returns_def D1_moves push_returns_def D1_push)
qed

theorem get_moves_2_selection_witness:
  "lookahead_2_returns kp_engine A1
   \<and> get_moves_2 kp_engine A1 = Inr (spec_get_moves_2 kp_engine A1)
   \<and> lookahead_2_returns kp_engine K1
   \<and> get_moves_2 kp_engine K1
       = Inr (spec_select (spec_depth_2 kp_engine K1) (captures_king K1) (get_pseudo_moves kp_engine K1))
   \<and> mk_move 52 43 \<in> set (get_pseudo_moves kp_engine A1)
   \<and> \<not> lookahead_2_returns kp_engine D1
   \<and> (\<exists>e. get_moves_2 kp_engine D1 = Inl e)"
  using get_moves_2_selection [of kp_engine A1] get_moves_2_selection [of kp_engine K1]
    get_moves_2_selection [of kp_engine D1]
    A1_no_king_capture A1_king_move A1_lookahead K1_lookahead D1_lookahead
  by blast

text \<open>
  Claim C1. Where the lookahead returns, the depths and the selection by the maximum
  depth are those of the claim (\<open>get_moves_2_selection\<close>); the exception for the king is
  to hold for the opposing king only, and there the code departs from it. In \<open>K1\<close> the
  candidate c5-d6 lands on White's own king and has no continuation (depth 1), the
  candidate c5-c6 has one (depth 2), and \<^verbatim>\<open>_get_moves_2\<close> returns c5-d6 all the same.
\<close>

theorem get_moves_2_own_king:
  "get_moves_2 kp_engine K1 \<noteq> Inr (spec_get_moves_2 kp_engine K1)
   \<and> mk_move 34 43 \<in> set (projr (get_moves_2 kp_engine K1))
   \<and> mk_move 34 43 \<notin> set (spec_get_moves_2 kp_engine K1)
   \<and> spec_depth_2 kp_engine K1 (mk_move 34 43) = 1
   \<and> spec_depth_2 kp_engine K1 (mk_move 34 42) = 2
   \<and> piece_at (board K1) (to_square (mk_move 34 43)) = Some (mk_piece KING WHITE)
   \<and> turn (board K1) = WHITE"
proof -
  have king: "captures_king K1 (mk_move 34 43)"
    by (simp add: captures_king_def piece_at_def example_defs)
  have own: "\<not> captures_opposing_king K1 (mk_move 34 43)"
    by (simp add: captures_opposing_king_def piece_at_def example_defs)
  have mx: "spec_max_depth (spec_depth_2 kp_engine K1) (get_pseudo_moves kp_engine K1) = 2"
    unfolding spec_max_depth_2 using K1_pawn_step K1_depths(2) by auto
  have inside: "mk_move 34 43 \<in> set (projr (get_moves_2 kp_engine K1))"
    unfolding get_moves_2_char [OF K1_lookahead] using K1_ep_move king by (simp add: spec_select_def)
  have outside: "mk_move 34 43 \<notin> set (spec_get_moves_2 kp_engine K1)"
    unfolding spec_get_moves_2_def spec_select_def mx using own K1_depths(1) by simp
  from inside outside have "get_moves_2 kp_engine K1 \<noteq> Inr (spec_get_moves_2 kp_engine K1)"
    by auto
  with inside outside K1_depths show ?thesis
    by (simp add: piece_at_def example_defs)
qed


subsection \<open>The selection with three dice\<close>

lemma moves_3_inner_result:
  assumes "\<forall>m \<in> set ms. \<not> is_castling E (board board_p1) m \<longrightarrow> push_returns E board_p1 m"
  shows "moves_3_inner E board_p1 i ms (counts, mx)
         = Inr (if list_ex (confirms_depth_3 E board_p1) ms then (counts[i := 3], 3)
                else (counts, mx))"
  using assms
proof (induction ms)
  case Nil
  then show ?case by simp
next
  case (Cons m ms)
  show ?case
  proof (cases "is_castling E (board board_p1) m")
    case True
    then have "confirms_depth_3 E board_p1 m" by (simp add: confirms_depth_3_def)
    with True show ?thesis by simp
  next
    case False
    with Cons.prems have "push_returns E board_p1 m" by simp
    then obtain b2 where b2: "push E (copy board_p1) m True = Inr b2"
      unfolding push_returns_iff by blast
    from Cons have IH: "moves_3_inner E board_p1 i ms (counts, mx)
         = Inr (if list_ex (confirms_depth_3 E board_p1) ms then (counts[i := 3], 3)
                else (counts, mx))" by simp
    have c: "confirms_depth_3 E board_p1 m \<longleftrightarrow> get_pseudo_moves E b2 \<noteq> []"
      using False b2 by (simp add: confirms_depth_3_def has_continuation_def)
    show ?thesis
      using False b2 IH by (simp add: c Let_def)
  qed
qed

lemma moves_3_loop_step:
  assumes ok: "push E (copy self) m True = Inr b1"
    and inner_ok: "is_castling E (board self) m \<or> lookahead_2_returns E b1"
    and len: "length pre = n" and lo: "1 \<le> mx" and hi: "mx \<le> 3"
  shows "moves_3_loop E self ((n, m) # rest) (pre @ 1 # suf, mx)
       = moves_3_loop E self rest (pre @ spec_depth_3 E self m # suf, max mx (spec_depth_3 E self m))"
proof -
  have upd2: "\<And>v w. (pre @ v # suf)[n := w] = pre @ w # suf"
    using len by (simp add: list_update_append)
  have mx2: "(if mx < 2 then 2 else mx) = max mx 2" by simp
  have mx3: "max mx 3 = 3" using hi by simp
  have mx1: "max mx (Suc 0) = mx" using lo by simp
  show ?thesis
  proof (cases "is_castling E (board self) m")
    case True
    show ?thesis
    proof (cases "get_pseudo_moves E b1 = []")
      case e: True
      have d: "spec_depth_3 E self m = 2"
        using ok True e by (simp add: spec_depth_3_def)
      show ?thesis unfolding d
        using ok True e by (simp add: Let_def upd2 mx2 del: list_update.simps)
    next
      case e: False
      have d: "spec_depth_3 E self m = 3"
        using ok True e by (simp add: spec_depth_3_def)
      show ?thesis unfolding d
        using ok True e by (simp add: Let_def upd2 mx3 del: list_update.simps)
    qed
  next
    case False
    with inner_ok have l: "lookahead_2_returns E b1" by simp
    show ?thesis
    proof (cases "get_pseudo_moves E b1 = []")
      case e: True
      have d: "spec_depth_3 E self m = 1"
        using ok False e by (simp add: spec_depth_3_def)
      show ?thesis unfolding d
        using ok False e by (simp add: Let_def mx1)
    next
      case e: False
      have conts: "\<forall>m1 \<in> set (get_pseudo_moves E b1).
          \<not> is_castling E (board b1) m1 \<longrightarrow> push_returns E b1 m1"
        using l by (auto simp: lookahead_2_returns_def list_all_iff)
      have inner: "moves_3_inner E b1 n (get_pseudo_moves E b1) (pre @ 2 # suf, max mx 2)
         = Inr (if list_ex (confirms_depth_3 E b1) (get_pseudo_moves E b1)
                then (pre @ 3 # suf, 3) else (pre @ 2 # suf, max mx 2))"
        using moves_3_inner_result [OF conts, of n "pre @ 2 # suf" "max mx 2"]
        by (simp add: upd2 del: list_update.simps)
      show ?thesis
      proof (cases "list_ex (confirms_depth_3 E b1) (get_pseudo_moves E b1)")
        case c: True
        have d: "spec_depth_3 E self m = 3"
          using ok False e c by (simp add: spec_depth_3_def)
        show ?thesis unfolding d
          using ok False e c inner by (simp add: Let_def upd2 mx2 mx3 del: list_update.simps)
      next
        case c: False
        have d: "spec_depth_3 E self m = 2"
          using ok False e c by (simp add: spec_depth_3_def)
        show ?thesis unfolding d
          using ok False e c inner by (simp add: Let_def upd2 mx2 del: list_update.simps)
      qed
    qed
  qed
qed

lemma Max_insert_max:
  assumes "finite S"
  shows "Max (insert (max a b) S) = Max (insert a (insert b S))"
proof (cases "S = {}")
  case True
  then show ?thesis by (simp add: max.commute)
next
  case False
  then show ?thesis using assms by (simp add: max.assoc)
qed

lemma fold_max_depth:
  "fold (\<lambda>m acc. max acc (d m)) ms (mx::nat) = Max (insert mx (d ` set ms))"
proof (induction ms arbitrary: mx)
  case Nil
  then show ?case by simp
next
  case (Cons m ms)
  have "fold (\<lambda>m acc. max acc (d m)) (m # ms) mx = Max (insert (max mx (d m)) (d ` set ms))"
    using Cons.IH by simp
  also have "\<dots> = Max (insert mx (insert (d m) (d ` set ms)))"
    by (rule Max_insert_max) simp
  finally show ?case by simp
qed

lemma spec_depth_3_range: "1 \<le> spec_depth_3 E self m \<and> spec_depth_3 E self m \<le> 3"
  by (simp add: spec_depth_3_def Let_def split: sum.splits)

lemma moves_3_loop_counts:
  assumes "\<forall>m \<in> set ms. \<exists>b1. push E (copy self) m True = Inr b1
              \<and> (is_castling E (board self) m \<or> lookahead_2_returns E b1)"
    and "length pre = n" and "1 \<le> mx" and "mx \<le> 3"
  shows "moves_3_loop E self (enumerate n ms) (pre @ map (\<lambda>_. 1) ms @ post, mx)
         = Inr (pre @ map (spec_depth_3 E self) ms @ post,
                fold (\<lambda>m acc. max acc (spec_depth_3 E self m)) ms mx)"
  using assms
proof (induction ms arbitrary: n pre mx)
  case Nil
  then show ?case by simp
next
  case (Cons m ms)
  let ?d = "spec_depth_3 E self"
  from Cons.prems obtain b1 where b1: "push E (copy self) m True = Inr b1"
    and i1: "is_castling E (board self) m \<or> lookahead_2_returns E b1" by auto
  have rest: "\<forall>m \<in> set ms. \<exists>b1. push E (copy self) m True = Inr b1
              \<and> (is_castling E (board self) m \<or> lookahead_2_returns E b1)"
    using Cons.prems by simp
  have len: "length (pre @ [?d m]) = Suc n" using Cons.prems by simp
  have lo: "1 \<le> max mx (?d m)" using Cons.prems by simp
  have hi: "max mx (?d m) \<le> 3" using Cons.prems spec_depth_3_range [of E self m] by simp
  have "moves_3_loop E self (enumerate n (m # ms)) (pre @ map (\<lambda>_. 1) (m # ms) @ post, mx)
      = moves_3_loop E self ((n, m) # enumerate (Suc n) ms) (pre @ 1 # (map (\<lambda>_. 1) ms @ post), mx)"
    by simp
  also have "\<dots> = moves_3_loop E self (enumerate (Suc n) ms)
                      (pre @ ?d m # (map (\<lambda>_. 1) ms @ post), max mx (?d m))"
    by (rule moves_3_loop_step [OF b1 i1 Cons.prems(2) Cons.prems(3) Cons.prems(4)])
  also have "\<dots> = moves_3_loop E self (enumerate (Suc n) ms)
                      ((pre @ [?d m]) @ map (\<lambda>_. 1) ms @ post, max mx (?d m))"
    by simp
  also have "\<dots> = Inr ((pre @ [?d m]) @ map ?d ms @ post,
                fold (\<lambda>m acc. max acc (?d m)) ms (max mx (?d m)))"
    by (rule Cons.IH [OF rest len lo hi])
  also have "\<dots> = Inr (pre @ map ?d (m # ms) @ post,
                fold (\<lambda>m acc. max acc (?d m)) (m # ms) mx)"
    by simp
  finally show ?case .
qed

lemma get_moves_3_char:
  assumes "lookahead_3_returns E self"
  shows "get_moves_3 E self
     = Inr (spec_select (spec_depth_3 E self) (captures_king self) (get_pseudo_moves E self))"
proof -
  let ?ms = "get_pseudo_moves E self"
  have ok: "\<forall>m \<in> set ?ms. \<exists>b1. push E (copy self) m True = Inr b1
              \<and> (is_castling E (board self) m \<or> lookahead_2_returns E b1)"
  proof
    fix m assume "m \<in> set ?ms"
    with assms have c: "case push E (copy self) m True of Inl e \<Rightarrow> False
        | Inr board_p1 \<Rightarrow> is_castling E (board self) m \<or> lookahead_2_returns E board_p1"
      by (simp add: lookahead_3_returns_def list_all_iff)
    show "\<exists>b1. push E (copy self) m True = Inr b1
              \<and> (is_castling E (board self) m \<or> lookahead_2_returns E b1)"
    proof (cases "push E (copy self) m True")
      case (Inl e)
      with c show ?thesis by simp
    next
      case (Inr b1)
      with c show ?thesis by simp
    qed
  qed
  have "moves_3_loop E self (enumerate 0 ?ms) ([] @ map (\<lambda>_. 1) ?ms @ [], 1)
         = Inr ([] @ map (spec_depth_3 E self) ?ms @ [],
                fold (\<lambda>m acc. max acc (spec_depth_3 E self m)) ?ms 1)"
    by (rule moves_3_loop_counts [OF ok]) simp_all
  then have loop: "moves_3_loop E self (enumerate 0 ?ms) (map (\<lambda>_. 1) ?ms, 1)
         = Inr (map (spec_depth_3 E self) ?ms, spec_max_depth (spec_depth_3 E self) ?ms)"
    by (simp add: fold_max_depth spec_max_depth_def)
  show ?thesis
    unfolding get_moves_3_def Let_def loop
    by (simp add: select_counted_map spec_select_def)
qed

lemma moves_3_inner_break:
  assumes "\<forall>m \<in> set ms. \<not> is_castling E (board board_p1) m \<longrightarrow> push_returns E board_p1 m"
    and "confirms_depth_3 E board_p1 m1"
  shows "moves_3_inner E board_p1 i (ms @ m1 # rest) (counts, mx) = Inr (counts[i := 3], 3)"
  using assms
proof (induction ms)
  case Nil
  then show ?case
    by (auto simp: confirms_depth_3_def has_continuation_def Let_def split: sum.splits)
next
  case (Cons m ms)
  show ?case
  proof (cases "is_castling E (board board_p1) m")
    case True
    then show ?thesis by simp
  next
    case False
    with Cons.prems have "push_returns E board_p1 m" by simp
    then obtain b2 where b2: "push E (copy board_p1) m True = Inr b2"
      unfolding push_returns_iff by blast
    from Cons have "moves_3_inner E board_p1 i (ms @ m1 # rest) (counts, mx)
        = Inr (counts[i := 3], 3)" by simp
    with False b2 show ?thesis by (simp add: Let_def)
  qed
qed

lemma continuation_depth_3:
  "has_continuation E self m \<Longrightarrow> 2 \<le> spec_depth_3 E self m"
  by (auto simp: has_continuation_def spec_depth_3_def Let_def split: sum.splits)

lemma lookahead_3_safe:
  assumes rights: "ep_squares self (turn (board self)) = []"
    and cast: "\<forall>b m. is_castling E b m \<longrightarrow> piece_at b (from_square m) \<noteq> None"
  shows "lookahead_3_returns E self"
  unfolding lookahead_3_returns_def list_all_iff
proof
  fix m assume m: "m \<in> set (get_pseudo_moves E self)"
  have origin: "piece_at (board self) (from_square m) \<noteq> None"
  proof (cases "is_castling E (board self) m")
    case True
    with cast show ?thesis by blast
  next
    case False
    with m show ?thesis
      by (auto simp: get_pseudo_moves_def dice_match_def Let_def split: option.splits)
  qed
  have "\<not> ep_capture_cond self m True"
    using rights by (simp add: ep_capture_cond_def)
  with origin obtain b1 where b1: "push E self m True = Inr b1"
    using push_succeeds [of self m True E] by blast
  have "ep_squares b1 (turn (board b1)) = []"
    using push_ep_mover [OF b1] push_turn [OF b1] rights by simp
  then have "\<And>m1. \<not> removes_mover b1 m1"
    by (intro occupied_rights_safe) simp
  then have "lookahead_2_returns E b1"
    by (intro lookahead_2_safe) simp
  with b1 show "case push E (copy self) m True of Inl e \<Rightarrow> False
      | Inr board_p1 \<Rightarrow> is_castling E (board self) m \<or> lookahead_2_returns E board_p1"
    by (simp add: copy_self)
qed

text \<open>
  What \<^verbatim>\<open>_get_moves_3\<close> computes where \<^verbatim>\<open>push\<close> raises on no copy of the lookahead: the
  candidates whose depth \<open>spec_depth_3\<close> is the maximum over all candidates, together
  with every candidate whose destination holds a king, of either colour; where no
  candidate lands on a king of the mover's colour that is the selection of the spec.
  The depth of a castling candidate is 2, and 3 if a continuation exists after it; the
  depth of another candidate is 1 without continuation, 3 if some continuation is a
  castling move or has a continuation of its own, and 2 otherwise. A candidate with a
  continuation has depth at least 2. The inner loop stops at the first continuation
  that confirms depth 3: what follows it in the list is not looked at, whatever it is.
\<close>

theorem get_moves_3_selection:
  "(lookahead_3_returns E self \<longrightarrow>
      get_moves_3 E self
        = Inr (spec_select (spec_depth_3 E self) (captures_king self) (get_pseudo_moves E self)))
   \<and> (lookahead_3_returns E self
        \<and> (\<forall>m \<in> set (get_pseudo_moves E self). captures_king self m \<longrightarrow> captures_opposing_king self m)
         \<longrightarrow> get_moves_3 E self = Inr (spec_get_moves_3 E self))
   \<and> (\<forall>m \<in> set (get_pseudo_moves E self).
         has_continuation E self m \<longrightarrow> 2 \<le> spec_depth_3 E self m)
   \<and> ((\<forall>m \<in> set ms. \<not> is_castling E (board board_p1) m \<longrightarrow> push_returns E board_p1 m)
        \<and> confirms_depth_3 E board_p1 m1 \<longrightarrow>
         moves_3_inner E board_p1 i (ms @ m1 # rest) (counts, mx) = Inr (counts[i := 3], 3))"
proof (intro conjI ballI impI)
  assume "lookahead_3_returns E self"
  then show "get_moves_3 E self
        = Inr (spec_select (spec_depth_3 E self) (captures_king self) (get_pseudo_moves E self))"
    by (rule get_moves_3_char)
next
  assume "lookahead_3_returns E self
        \<and> (\<forall>m \<in> set (get_pseudo_moves E self). captures_king self m \<longrightarrow> captures_opposing_king self m)"
  then have l: "lookahead_3_returns E self"
    and h: "\<forall>m \<in> set (get_pseudo_moves E self). captures_king self m \<longrightarrow> captures_opposing_king self m"
    by simp_all
  have "\<And>m. captures_opposing_king self m \<Longrightarrow> captures_king self m"
    by (simp add: captures_opposing_king_def captures_king_def)
  with h have "spec_select (spec_depth_3 E self) (captures_king self) (get_pseudo_moves E self)
      = spec_get_moves_3 E self"
    unfolding spec_get_moves_3_def spec_select_def by (intro filter_cong) auto
  then show "get_moves_3 E self = Inr (spec_get_moves_3 E self)"
    using get_moves_3_char [OF l] by simp
next
  fix m assume "has_continuation E self m"
  then show "2 \<le> spec_depth_3 E self m" by (rule continuation_depth_3)
next
  assume "(\<forall>m \<in> set ms. \<not> is_castling E (board board_p1) m \<longrightarrow> push_returns E board_p1 m)
        \<and> confirms_depth_3 E board_p1 m1"
  then show "moves_3_inner E board_p1 i (ms @ m1 # rest) (counts, mx) = Inr (counts[i := 3], 3)"
    using moves_3_inner_break [of ms E board_p1 m1 i rest counts mx] by blast
qed

lemma kp_castling_origin:
  "\<forall>b m. is_castling kp_engine b m \<longrightarrow> piece_at b (from_square m) \<noteq> None"
  by (auto simp: kp_engine_def kp_is_castling_def piece_at_def split: option.splits)

lemma A0_lookahead: "lookahead_3_returns kp_engine A0"
  by (rule lookahead_3_safe [OF _ kp_castling_origin]) (simp add: A0_def example_defs)

lemma A0_no_king_capture:
  "\<forall>m \<in> set (get_pseudo_moves kp_engine A0). \<not> captures_king A0 m"
  by (simp add: moves_defs captures_king_def piece_at_def A0_def example_defs kp_defs kp_gen_defs Let_def)

lemma A0_double_step: "mk_move 51 35 \<in> set (get_pseudo_moves kp_engine A0)"
  by (simp add: moves_defs piece_at_def A0_def example_defs kp_defs kp_gen_defs Let_def)

lemma A2_moves: "get_pseudo_moves kp_engine A2 \<noteq> []"
  by (simp add: moves_defs piece_at_def A2_def example_defs kp_defs kp_gen_defs Let_def)

lemma A1_confirms: "confirms_depth_3 kp_engine A1 (mk_move 52 43)"
  by (simp add: confirms_depth_3_def has_continuation_def copy_self A1_push A2_moves)

lemma A0_continuation: "has_continuation kp_engine A0 (mk_move 51 35)"
  using A1_king_move by (auto simp: has_continuation_def copy_self A0_push)

lemma A0_depth: "spec_depth_3 kp_engine A0 (mk_move 51 35) = 3"
proof -
  have "list_ex (confirms_depth_3 kp_engine A1) (get_pseudo_moves kp_engine A1)"
    unfolding list_ex_iff using A1_king_move A1_confirms by blast
  moreover have "get_pseudo_moves kp_engine A1 \<noteq> []" using A1_king_move by auto
  moreover have "\<not> is_castling kp_engine (board A0) (mk_move 51 35)"
    by (simp add: kp_engine_def kp_is_castling_def A0_def example_defs)
  ultimately show ?thesis
    by (simp add: spec_depth_3_def copy_self A0_push)
qed

theorem get_moves_3_selection_witness:
  "lookahead_3_returns kp_engine A0
   \<and> get_moves_3 kp_engine A0 = Inr (spec_get_moves_3 kp_engine A0)
   \<and> mk_move 51 35 \<in> set (get_pseudo_moves kp_engine A0)
   \<and> has_continuation kp_engine A0 (mk_move 51 35)
   \<and> spec_depth_3 kp_engine A0 (mk_move 51 35) = 3
   \<and> confirms_depth_3 kp_engine A1 (mk_move 52 43)
   \<and> push kp_engine (copy A1) (mk_move 20 28) True = Inl AssertionError
   \<and> moves_3_inner kp_engine A1 0 [mk_move 52 43, mk_move 20 28] ([2], 2) = Inr ([3], 3)"
proof -
  have bad: "push kp_engine (copy A1) (mk_move 20 28) True = Inl AssertionError"
    by (simp add: copy_self A1_def push_defs example_defs)
  note t = get_moves_3_selection [of kp_engine A0 "[]" A1 "mk_move 52 43" 0 "[mk_move 20 28]" "[2]" 2]
  from t A0_lookahead A0_no_king_capture
  have g: "get_moves_3 kp_engine A0 = Inr (spec_get_moves_3 kp_engine A0)"
    by blast
  from t A1_confirms
  have "moves_3_inner kp_engine A1 0 ([] @ mk_move 52 43 # [mk_move 20 28]) ([2], 2)
      = Inr ([2][0 := 3], 3)"
    by (simp del: moves_3_inner.simps)
  then have i: "moves_3_inner kp_engine A1 0 [mk_move 52 43, mk_move 20 28] ([2], 2) = Inr ([3], 3)"
    by (simp del: moves_3_inner.simps)
  from g i A0_lookahead A0_double_step A0_continuation A0_depth A1_confirms bad
  show ?thesis by blast
qed

lemma D0_moves:
  "get_pseudo_moves kp_engine D0 = [mk_move 26 35, mk_move 26 34, mk_move 36 43]"
  by (simp add: moves_defs piece_at_def D0_def example_defs kp_defs kp_gen_defs Let_def)

lemma D0_push: "push kp_engine (copy D0) (mk_move 26 35) True = Inr D1"
  by (simp add: copy_def D0_def D1_def push_defs example_defs kp_defs)

lemma D_no_castling:
  "\<not> is_castling kp_engine (board D0) (mk_move 26 35)"
  "\<not> is_castling kp_engine (board D1) (mk_move 35 43)"
  by (simp_all add: kp_engine_def kp_is_castling_def D0_def D1_def example_defs)

lemma D0_aborts:
  "get_moves_3 kp_engine D0 = Inl AssertionError" "get_moves kp_engine D0 = Inl AssertionError"
proof -
  have inner: "\<And>counts mx.
      moves_3_inner kp_engine D1 0 [mk_move 35 43] (counts, mx) = Inl AssertionError"
    using D_no_castling(2) by (simp add: D1_push)
  have loop: "moves_3_loop kp_engine D0
      (enumerate 0 [mk_move 26 35, mk_move 26 34, mk_move 36 43]) ([1, 1, 1], 1)
      = Inl AssertionError"
    using D_no_castling(1) by (simp add: D0_push D1_moves inner Let_def del: moves_3_inner.simps)
  show g3: "get_moves_3 kp_engine D0 = Inl AssertionError"
    unfolding get_moves_3_def D0_moves Let_def using loop by simp
  show "get_moves kp_engine D0 = Inl AssertionError"
    unfolding get_moves_def Let_def using g3 by (simp add: D0_def)
qed

text \<open>
  Claim C2. With three dice \<^verbatim>\<open>get_moves\<close> is to compute a depth for every candidate and
  to return the selection. In \<open>D0\<close>, White to move with three pawn dice after Black's
  d7-d5, it returns nothing: it raises \<^verbatim>\<open>AssertionError\<close>. One candidate is c4xd5 (here
  the first); \<^verbatim>\<open>push\<close> on the copy gives \<open>D1\<close>, whose only continuation is the straight
  step d5-d6 onto White's right d6; it is no castling move, so \<^verbatim>\<open>_get_moves_3\<close> copies
  \<open>D1\<close> and calls \<^verbatim>\<open>push\<close>, whose en-passant block removes the moving pawn, and the
  library's assertion fails. (Where the lookahead returns, the depths are those of the claim and
  the filter is the one of \<^verbatim>\<open>_get_moves_2\<close>, which keeps a candidate that lands on a king
  of either colour: \<open>get_moves_3_selection\<close>.)
\<close>

theorem get_moves_3_aborts:
  "length (dice_roll D0) = 3
   \<and> get_moves kp_engine D0 = Inl AssertionError
   \<and> get_moves_3 kp_engine D0 = Inl AssertionError
   \<and> get_pseudo_moves kp_engine D0 = [mk_move 26 35, mk_move 26 34, mk_move 36 43]
   \<and> push kp_engine (copy D0) (mk_move 26 35) True = Inr D1
   \<and> get_pseudo_moves kp_engine D1 = [mk_move 35 43]
   \<and> \<not> is_castling kp_engine (board D1) (mk_move 35 43)
   \<and> removes_mover D1 (mk_move 35 43)
   \<and> push kp_engine (copy D1) (mk_move 35 43) True = Inl AssertionError"
proof -
  have three: "length (dice_roll D0) = 3" by (simp add: D0_def)
  note g3 = D0_aborts(1) and g = D0_aborts(2)
  have r: "removes_mover D1 (mk_move 35 43)"
    by (simp add: removes_mover_def ep_capture_cond_def is_pawn_piece_def piece_at_def D1_def
        example_defs)
  from three g g3 D0_moves D0_push D1_moves D_no_castling(2) r D1_push show ?thesis by simp
qed

subsection \<open>The selection leaves the objects of the caller alone\<close>

lemma unchanged_refl: "unchanged s s"
  by (simp add: unchanged_def)

lemma take_length_le:
  assumes "take (length xs) ys = xs"
  shows "length xs \<le> length ys"
proof -
  have "length (take (length xs) ys) = length xs"
    using assms by (rule arg_cong)
  then show ?thesis by simp
qed

lemma take_take_prefix:
  assumes "take (length xs) ys = xs" and "take (length ys) zs = ys"
  shows "take (length xs) zs = xs"
proof -
  have "length xs \<le> length ys" using assms(1) by (rule take_length_le)
  then have "take (length xs) zs = take (length xs) (take (length ys) zs)"
    by (simp add: min_def)
  with assms show ?thesis by simp
qed

lemma unchanged_trans: "unchanged s1 s2 \<Longrightarrow> unchanged s2 s3 \<Longrightarrow> unchanged s1 s3"
  unfolding unchanged_def by (blast intro: take_take_prefix)

lemma take_nth_prefix: "take (length xs) ys = xs \<Longrightarrow> i < length xs \<Longrightarrow> ys ! i = xs ! i"
  by (metis nth_take)

lemma unchanged_view:
  assumes u: "unchanged s s'" and w: "wf s self"
  shows "view s' self = view s self \<and> wf s' self
       \<and> boards s' ! self = boards s ! self
       \<and> ep_ref s' self = ep_ref s self \<and> dice_ref s' self = dice_ref s self"
proof -
  from u have b: "take (length (boards s)) (boards s') = boards s"
    and d: "take (length (dicts s)) (dicts s') = dicts s"
    and q: "take (length (square_lists s)) (square_lists s') = square_lists s"
    and r: "take (length (dice_lists s)) (dice_lists s') = dice_lists s"
    by (simp_all add: unchanged_def)
  from w have i: "self < length (boards s)"
    "obj_ep_squares (boards s ! self) < length (dicts s)"
    "ep_ref s self WHITE < length (square_lists s)"
    "ep_ref s self BLACK < length (square_lists s)"
    "ep_ref s self WHITE \<noteq> ep_ref s self BLACK"
    "dice_ref s self < length (dice_lists s)"
    by (simp_all add: wf_def)
  have ob: "boards s' ! self = boards s ! self"
    using take_nth_prefix [OF b i(1)] .
  have di: "dicts s' ! obj_ep_squares (boards s ! self) = dicts s ! obj_ep_squares (boards s ! self)"
    using take_nth_prefix [OF d i(2)] .
  have er: "ep_ref s' self = ep_ref s self"
    by (rule ext) (simp add: ep_ref_def ob di)
  have dr: "dice_ref s' self = dice_ref s self"
    by (simp add: dice_ref_def ob)
  have sq: "\<And>c. square_lists s' ! ep_ref s self c = square_lists s ! ep_ref s self c"
  proof -
    fix c
    have "ep_ref s self c < length (square_lists s)"
      using i(3,4) by (cases c) (simp_all add: WHITE_def BLACK_def)
    then show "square_lists s' ! ep_ref s self c = square_lists s ! ep_ref s self c"
      using take_nth_prefix [OF q] by simp
  qed
  have dl: "dice_lists s' ! dice_ref s self = dice_lists s ! dice_ref s self"
    using take_nth_prefix [OF r i(6)] .
  have v: "view s' self = view s self"
    by (simp add: view_def ob er dr sq dl)
  have w': "wf s' self"
    using i take_length_le [OF b] take_length_le [OF d] take_length_le [OF q] take_length_le [OF r]
    by (simp add: wf_def ob er dr)
  from v w' ob er dr show ?thesis by simp
qed

lemma copy_h_explicit:
  assumes w: "wf s self"
  shows "copy_h s self =
    (length (boards s),
     s\<lparr>square_lists := square_lists s @ [square_lists s ! ep_ref s self WHITE,
                                          square_lists s ! ep_ref s self BLACK],
       dicts := dicts s @ [(length (square_lists s), Suc (length (square_lists s)))],
       dice_lists := dice_lists s @ [dice_lists s ! dice_ref s self],
       boards := boards s @ [\<lparr>obj_board = obj_board (boards s ! self),
                               obj_ep_squares = length (dicts s),
                               obj_dice_roll = length (dice_lists s)\<rparr>]\<rparr>)"
proof -
  from w have ne: "ep_ref s self BLACK \<noteq> ep_ref s self WHITE" by (simp add: wf_def)
  show ?thesis
    unfolding copy_h_def Let_def using ne by simp
qed

lemma copy_h_props:
  assumes w: "wf s self" and c: "copy_h s self = (a, s')"
  shows "unchanged s s' \<and> owned s s' a \<and> view s' a = view s self"
proof -
  note e = c [unfolded copy_h_explicit [OF w]]
  from e have a: "a = length (boards s)" by simp
  from e have s': "s' = s\<lparr>square_lists := square_lists s @ [square_lists s ! ep_ref s self WHITE,
                                          square_lists s ! ep_ref s self BLACK],
       dicts := dicts s @ [(length (square_lists s), Suc (length (square_lists s)))],
       dice_lists := dice_lists s @ [dice_lists s ! dice_ref s self],
       boards := boards s @ [\<lparr>obj_board = obj_board (boards s ! self),
                               obj_ep_squares = length (dicts s),
                               obj_dice_roll = length (dice_lists s)\<rparr>]\<rparr>" by simp
  have u: "unchanged s s'"
    by (simp add: unchanged_def s')
  have er: "ep_ref s' a WHITE = length (square_lists s)"
    "ep_ref s' a BLACK = Suc (length (square_lists s))"
    by (simp_all add: ep_ref_def s' a WHITE_def BLACK_def)
  have dr: "dice_ref s' a = length (dice_lists s)"
    by (simp add: dice_ref_def s' a)
  have o: "owned s s' a"
    by (simp add: owned_def wf_def er dr) (simp add: s' a)
  have "\<And>c. square_lists s' ! ep_ref s' a c = square_lists s ! ep_ref s self c"
  proof -
    fix c show "square_lists s' ! ep_ref s' a c = square_lists s ! ep_ref s self c"
      using er by (cases c) (simp_all add: s' WHITE_def BLACK_def nth_append)
  qed
  then have v: "view s' a = view s self"
    by (simp add: view_def dr) (simp add: s' a)
  from u o v show ?thesis by simp
qed

lemma set_board_props:
  assumes o: "owned s0 s a" and u: "unchanged s0 s"
  shows "owned s0 (set_board s a b) a \<and> unchanged s0 (set_board s a b)
       \<and> view (set_board s a b) a = (view s a)\<lparr>board := b\<rparr>"
proof -
  from o have i: "a < length (boards s)" "length (boards s0) \<le> a"
    by (simp_all add: owned_def wf_def)
  have er: "ep_ref (set_board s a b) a = ep_ref s a"
    using i by (simp add: ep_ref_def set_board_def fun_eq_iff)
  have dr: "dice_ref (set_board s a b) a = dice_ref s a"
    using i by (simp add: dice_ref_def set_board_def)
  have o': "owned s0 (set_board s a b) a"
    using o by (simp add: owned_def wf_def er dr) (simp add: set_board_def)
  have u': "unchanged s0 (set_board s a b)"
    using u i by (simp add: unchanged_def set_board_def take_update_cancel)
  have v: "view (set_board s a b) a = (view s a)\<lparr>board := b\<rparr>"
    using i by (simp add: view_def er dr) (simp add: set_board_def)
  from o' u' v show ?thesis by simp
qed

lemma ep_ref_cases: "ep_ref s a c = (if c then ep_ref s a WHITE else ep_ref s a BLACK)"
  by (simp add: WHITE_def BLACK_def)

lemma set_squares_props:
  assumes o: "owned s0 s a" and u: "unchanged s0 s"
  shows "owned s0 (set_squares s (ep_ref s a c) xs) a
       \<and> unchanged s0 (set_squares s (ep_ref s a c) xs)
       \<and> view (set_squares s (ep_ref s a c) xs) a
           = (view s a)\<lparr>ep_squares := (ep_squares (view s a))(c := xs)\<rparr>"
proof -
  let ?s = "set_squares s (ep_ref s a c) xs"
  from o have i: "ep_ref s a WHITE < length (square_lists s)"
    "ep_ref s a BLACK < length (square_lists s)" "ep_ref s a WHITE \<noteq> ep_ref s a BLACK"
    "length (square_lists s0) \<le> ep_ref s a WHITE" "length (square_lists s0) \<le> ep_ref s a BLACK"
    by (simp_all add: owned_def wf_def)
  have c: "ep_ref s a c < length (square_lists s)" "length (square_lists s0) \<le> ep_ref s a c"
    using i by (simp_all add: ep_ref_cases [of s a c])
  have er: "ep_ref ?s a = ep_ref s a"
    by (simp add: ep_ref_def set_squares_def fun_eq_iff)
  have dr: "dice_ref ?s a = dice_ref s a"
    by (simp add: dice_ref_def set_squares_def)
  have o': "owned s0 ?s a"
    using o by (simp add: owned_def wf_def er dr) (simp add: set_squares_def)
  have u': "unchanged s0 ?s"
    using u c by (simp add: unchanged_def set_squares_def take_update_cancel)
  have "\<And>c'. square_lists ?s ! ep_ref s a c' = (if c' = c then xs else square_lists s ! ep_ref s a c')"
  proof -
    fix c'
    have "c' \<noteq> c \<Longrightarrow> ep_ref s a c' \<noteq> ep_ref s a c"
      using i(3) by (cases c; cases c') (simp_all add: WHITE_def BLACK_def)
    then show "square_lists ?s ! ep_ref s a c' = (if c' = c then xs else square_lists s ! ep_ref s a c')"
      using c by (auto simp: set_squares_def)
  qed
  then have v: "view ?s a = (view s a)\<lparr>ep_squares := (ep_squares (view s a))(c := xs)\<rparr>"
    by (simp add: view_def er dr fun_eq_iff) (simp add: set_squares_def)
  from o' u' v show ?thesis by simp
qed

lemma set_dice_props:
  assumes o: "owned s0 s a" and u: "unchanged s0 s"
  shows "owned s0 (set_dice s (dice_ref s a) ds) a
       \<and> unchanged s0 (set_dice s (dice_ref s a) ds)
       \<and> view (set_dice s (dice_ref s a) ds) a = (view s a)\<lparr>dice_roll := ds\<rparr>"
proof -
  let ?s = "set_dice s (dice_ref s a) ds"
  from o have i: "dice_ref s a < length (dice_lists s)" "length (dice_lists s0) \<le> dice_ref s a"
    by (simp_all add: owned_def wf_def)
  have er: "ep_ref ?s a = ep_ref s a"
    by (simp add: ep_ref_def set_dice_def fun_eq_iff)
  have dr: "dice_ref ?s a = dice_ref s a"
    by (simp add: dice_ref_def set_dice_def)
  have o': "owned s0 ?s a"
    using o by (simp add: owned_def wf_def er dr) (simp add: set_dice_def)
  have u': "unchanged s0 ?s"
    using u i by (simp add: unchanged_def set_dice_def take_update_cancel)
  have v: "view ?s a = (view s a)\<lparr>dice_roll := ds\<rparr>"
    using i by (simp add: view_def er dr) (simp add: set_dice_def)
  from o' u' v show ?thesis by simp
qed

lemma view_fields:
  "obj_board (boards s ! a) = board (view s a)"
  "square_lists s ! ep_ref s a c = ep_squares (view s a) c"
  "dice_lists s ! dice_ref s a = dice_roll (view s a)"
  by (simp_all add: view_def)

lemma ep_capture_h_props:
  assumes o: "owned s0 s a" and u: "unchanged s0 s"
  shows "owned s0 (ep_capture_h s a m) a \<and> unchanged s0 (ep_capture_h s a m)
       \<and> view (ep_capture_h s a m) a = ep_capture (view s a) m"
proof -
  let ?col = "turn (board (view s a))"
  let ?b = "remove_piece_at (board (view s a)) (to_square m + (if ?col = BLACK then 8 else - 8))"
  let ?s1 = "set_board s a ?b"
  note b = set_board_props [OF o u, of ?b]
  from b have o1: "owned s0 ?s1 a" and u1: "unchanged s0 ?s1"
    and v1: "view ?s1 a = (view s a)\<lparr>board := ?b\<rparr>" by simp_all
  let ?xs = "remove1 (to_square m) (ep_squares (view ?s1 a) ?col)"
  note q = set_squares_props [OF o1 u1, of ?col ?xs]
  have e: "ep_capture_h s a m = set_squares ?s1 (ep_ref ?s1 a ?col) ?xs"
    by (simp add: ep_capture_h_def Let_def view_fields)
  have "view (ep_capture_h s a m) a = ep_capture (view s a) m"
    unfolding e using q by (simp add: v1 ep_capture_def Let_def)
  with q show ?thesis unfolding e by simp
qed

lemma grant_ep_h_props:
  assumes o: "owned s0 s a" and u: "unchanged s0 s"
  shows "owned s0 (grant_ep_h s a m opp) a \<and> unchanged s0 (grant_ep_h s a m opp)
       \<and> view (grant_ep_h s a m opp) a = grant_ep (view s a) m opp"
proof (cases "\<bar>square_rank (to_square m) - square_rank (from_square m)\<bar> = 2
    \<and> has_adjacent_opponent_pawn (board (view s a)) opp (to_square m)
    \<and> (from_square m + to_square m) div 2 \<notin> set (ep_squares (view s a) opp)")
  case True
  let ?xs = "ep_squares (view s a) opp @ [(from_square m + to_square m) div 2]"
  note q = set_squares_props [OF o u, of opp ?xs]
  have e: "grant_ep_h s a m opp = set_squares s (ep_ref s a opp) ?xs"
    using True by (simp add: grant_ep_h_def Let_def view_fields)
  have "grant_ep (view s a) m opp = (view s a)\<lparr>ep_squares := (ep_squares (view s a))(opp := ?xs)\<rparr>"
    using True by (simp add: grant_ep_def Let_def)
  with q show ?thesis unfolding e by simp
next
  case False
  then have e: "grant_ep_h s a m opp = s"
    by (auto simp: grant_ep_h_def Let_def view_fields)
  from False have "grant_ep (view s a) m opp = view s a"
    by (auto simp: grant_ep_def Let_def)
  with o u show ?thesis unfolding e by simp
qed

lemma push_h_props:
  assumes o: "owned s0 s a" and u: "unchanged s0 s" and p: "push_h E s a m mc = (r, s')"
  shows "owned s0 s' a \<and> unchanged s0 s'
       \<and> (case push E (view s a) m mc of
             Inl e \<Rightarrow> r = Inl e
           | Inr v \<Rightarrow> r = Inr () \<and> view s' a = v)"
proof -
  define self where "self = view s a"
  define col where "col = turn (board self)"
  define piece where "piece = piece_at (board self) (from_square m)"
  define castling where "castling = is_castling E (board self) m"
  define cond where "cond = ep_capture_cond self m mc"
  text \<open>the states of the object on the store\<close>
  define s1 where "s1 = (if cond then ep_capture_h s a m else s)"
  define s2 where "s2 = set_board s1 a
      ((board_push E (obj_board (boards s1 ! a)) m)\<lparr>turn := col, ep_square := None\<rparr>)"
  define s3 where "s3 = (\<lambda>pc::Piece. set_dice s2 (dice_ref s2 a)
      (remove_dice (piece_type pc) castling (dice_lists s2 ! dice_ref s2 a)))"
  define s4 where "s4 = (\<lambda>pc::Piece.
      if is_pawn_piece piece then grant_ep_h (s3 pc) a m (\<not> col) else s3 pc)"
  text \<open>and as values\<close>
  define self1 where "self1 = (if cond then ep_capture self m else self)"
  define self2 where "self2 = self1\<lparr>board :=
      (board_push E (board self1) m)\<lparr>turn := col, ep_square := None\<rparr>\<rparr>"
  define self3 where "self3 = (\<lambda>pc::Piece. self2\<lparr>dice_roll :=
      remove_dice (piece_type pc) castling (dice_roll self2)\<rparr>)"
  define self4 where "self4 = (\<lambda>pc::Piece.
      if is_pawn_piece piece then grant_ep (self3 pc) m (\<not> col) else self3 pc)"
  have p1: "owned s0 s1 a" "unchanged s0 s1" "view s1 a = self1"
    using ep_capture_h_props [OF o u, of m] o u by (simp_all add: s1_def self1_def self_def)
  have f1: "obj_board (boards s1 ! a) = board self1"
    unfolding p1(3) [symmetric] by (simp add: view_def)
  have p2: "owned s0 s2 a" "unchanged s0 s2" "view s2 a = self2"
    unfolding s2_def self2_def f1 using set_board_props [OF p1(1) p1(2)] by (simp_all add: p1(3))
  have f2: "dice_lists s2 ! dice_ref s2 a = dice_roll self2"
    unfolding p2(3) [symmetric] by (simp add: view_def)
  have p3: "\<And>pc. owned s0 (s3 pc) a \<and> unchanged s0 (s3 pc) \<and> view (s3 pc) a = self3 pc"
    unfolding s3_def self3_def f2 using set_dice_props [OF p2(1) p2(2)] by (simp add: p2(3))
  have p4: "\<And>pc. owned s0 (s4 pc) a \<and> unchanged s0 (s4 pc) \<and> view (s4 pc) a = self4 pc"
  proof -
    fix pc
    from p3 [of pc] have a: "owned s0 (s3 pc) a" "unchanged s0 (s3 pc)" "view (s3 pc) a = self3 pc"
      by simp_all
    show "owned s0 (s4 pc) a \<and> unchanged s0 (s4 pc) \<and> view (s4 pc) a = self4 pc"
      using grant_ep_h_props [OF a(1) a(2), of m "\<not> col"] a by (simp add: s4_def self4_def)
  qed
  define sa where "sa = set_board s1 a (board_abort E (obj_board (boards s1 ! a)) m)"
  have pa: "owned s0 sa a" "unchanged s0 sa"
    unfolding sa_def using set_board_props [OF p1(1) p1(2)] by simp_all
  have val: "push E self m mc =
      (if assertion_fails (board self1) m then Inl AssertionError
       else if mc then (case piece of None \<Rightarrow> Inl AttributeError | Some pc \<Rightarrow> Inr (self4 pc))
       else Inr self2)"
    unfolding push_def super_push_def Let_def self4_def self3_def self2_def self1_def cond_def
      castling_def piece_def col_def
    by (simp split: option.splits)
  have sto: "push_h E s a m mc =
      (if assertion_fails (obj_board (boards s1 ! a)) m then (Inl AssertionError, sa)
       else if mc then (case piece of None \<Rightarrow> (Inl AttributeError, s2) | Some pc \<Rightarrow> (Inr (), s4 pc))
       else (Inr (), s2))"
    unfolding push_h_def super_push_def Let_def s4_def s3_def s2_def s1_def sa_def cond_def
      ep_capture_cond_def castling_def piece_def col_def self_def view_def
    by (auto split: option.splits)
  show ?thesis
  proof (cases "assertion_fails (board self1) m")
    case True
    with sto p val pa show ?thesis by (simp add: self_def f1)
  next
    case ok: False
    show ?thesis
    proof (cases mc)
      case False
      with ok sto p val p2 show ?thesis by (simp add: self_def f1)
    next
      case mc: True
      show ?thesis
      proof (cases piece)
        case None
        with ok mc sto p val p2 show ?thesis by (simp add: self_def f1)
      next
        case (Some pc)
        with ok mc sto p val p4 [of pc] show ?thesis by (simp add: self_def f1)
      qed
    qed
  qed
qed

lemma simulate_step:
  assumes w: "wf s0 self" and u: "unchanged s0 s"
    and c: "copy_h s self = (a, s1)" and p: "push_h E s1 a m True = (r, s2)"
  shows "unchanged s0 s2 \<and> unchanged s s2 \<and> wf s2 a
       \<and> (case push E (copy (view s0 self)) m True of
             Inl e \<Rightarrow> r = Inl e
           | Inr v \<Rightarrow> r = Inr () \<and> view s2 a = v)"
proof -
  from unchanged_view [OF u w] have ws: "wf s self" and vs: "view s self = view s0 self"
    by simp_all
  from copy_h_props [OF ws c]
  have u1: "unchanged s s1" and o1: "owned s s1 a" and v1: "view s1 a = view s self"
    by simp_all
  from push_h_props [OF o1 u1 p]
  have o2: "owned s s2 a" and u2: "unchanged s s2"
    and r: "case push E (view s1 a) m True of Inl e \<Rightarrow> r = Inl e
            | Inr v \<Rightarrow> r = Inr () \<and> view s2 a = v"
    by simp_all
  from o2 have "wf s2 a" by (simp add: owned_def)
  moreover have "unchanged s0 s2" using u u2 by (rule unchanged_trans)
  ultimately show ?thesis using u2 r by (simp add: v1 vs copy_self)
qed

lemma moves_2_loop_h_props:
  assumes w: "wf s0 self" and u: "unchanged s0 s"
  shows "case moves_2_loop_h E self xs st s of
           (r, s') \<Rightarrow> unchanged s0 s' \<and> r = moves_2_loop E (view s0 self) xs st"
  using u
proof (induction xs arbitrary: st s)
  case Nil
  then show ?case by (cases st) simp
next
  case (Cons x xs)
  obtain i move where x: "x = (i, move)" by (cases x)
  obtain counts mx where st: "st = (counts, mx)" by (cases st)
  from unchanged_view [OF Cons.prems w]
  have b: "obj_board (boards s ! self) = board (view s0 self)"
    by (simp add: view_def)
  show ?case
  proof (cases "is_castling E (board (view s0 self)) move")
    case True
    with Cons.IH [OF Cons.prems, of "(counts[i := 2], 2)"] show ?thesis
      by (simp add: x st b)
  next
    case False
    obtain a s1 where c: "copy_h s self = (a, s1)" by (cases "copy_h s self")
    obtain r s2 where p: "push_h E s1 a move True = (r, s2)" by (cases "push_h E s1 a move True")
    note step = simulate_step [OF w Cons.prems c p]
    from step have u2: "unchanged s0 s2" by simp
    show ?thesis
    proof (cases "push E (copy (view s0 self)) move True")
      case (Inl e)
      with step have "r = Inl e" by simp
      with False c p Inl u2 show ?thesis by (simp add: x st b)
    next
      case (Inr v)
      with step have r: "r = Inr ()" and v: "view s2 a = v" by simp_all
      show ?thesis
      proof (cases "get_pseudo_moves E v = []")
        case True
        with Cons.IH [OF u2, of "(counts, mx)"] False c p Inr r v show ?thesis
          by (simp add: x st b get_pseudo_moves_h_def)
      next
        case nonempty: False
        with Cons.IH [OF u2, of "(counts[i := 2], 2)"] False c p Inr r v show ?thesis
          by (simp add: x st b get_pseudo_moves_h_def)
      qed
    qed
  qed
qed

lemma moves_3_inner_h_props:
  assumes w: "wf s1 b1" and u: "unchanged s1 s"
  shows "case moves_3_inner_h E b1 i ms st s of
           (r, s') \<Rightarrow> unchanged s1 s' \<and> r = moves_3_inner E (view s1 b1) i ms st"
  using u
proof (induction ms arbitrary: s)
  case Nil
  then show ?case by (cases st) simp
next
  case (Cons move ms)
  obtain counts mx where st: "st = (counts, mx)" by (cases st)
  from unchanged_view [OF Cons.prems w]
  have b: "obj_board (boards s ! b1) = board (view s1 b1)"
    by (simp add: view_def)
  show ?case
  proof (cases "is_castling E (board (view s1 b1)) move")
    case True
    with Cons.prems show ?thesis by (simp add: st b)
  next
    case False
    obtain a sa where c: "copy_h s b1 = (a, sa)" by (cases "copy_h s b1")
    obtain r s2 where p: "push_h E sa a move True = (r, s2)" by (cases "push_h E sa a move True")
    note step = simulate_step [OF w Cons.prems c p]
    from step have u2: "unchanged s1 s2" by simp
    show ?thesis
    proof (cases "push E (copy (view s1 b1)) move True")
      case (Inl e)
      with step have "r = Inl e" by simp
      with False c p Inl u2 show ?thesis by (simp add: st b)
    next
      case (Inr v)
      with step have r: "r = Inr ()" and v: "view s2 a = v" by simp_all
      show ?thesis
      proof (cases "get_pseudo_moves E v = []")
        case True
        with Cons.IH [OF u2] False c p Inr r v show ?thesis
          by (simp add: st b get_pseudo_moves_h_def)
      next
        case nonempty: False
        with u2 False c p Inr r v show ?thesis
          by (simp add: st b get_pseudo_moves_h_def)
      qed
    qed
  qed
qed

lemma moves_3_loop_h_props:
  assumes w: "wf s0 self" and u: "unchanged s0 s"
  shows "case moves_3_loop_h E self xs st s of
           (r, s') \<Rightarrow> unchanged s0 s' \<and> r = moves_3_loop E (view s0 self) xs st"
  using u
proof (induction xs arbitrary: st s)
  case Nil
  then show ?case by (cases st) simp
next
  case (Cons x xs)
  obtain i move where x: "x = (i, move)" by (cases x)
  obtain counts mx where st: "st = (counts, mx)" by (cases st)
  obtain a s1 where c: "copy_h s self = (a, s1)" by (cases "copy_h s self")
  obtain r s2 where p: "push_h E s1 a move True = (r, s2)" by (cases "push_h E s1 a move True")
  note step = simulate_step [OF w Cons.prems c p]
  from step have u2: "unchanged s0 s2" and wa: "wf s2 a" by simp_all
  from unchanged_view [OF u2 w]
  have b: "obj_board (boards s2 ! self) = board (view s0 self)"
    by (simp add: view_def)
  show ?case
  proof (cases "push E (copy (view s0 self)) move True")
    case (Inl e)
    with step have "r = Inl e" by simp
    with c p Inl u2 show ?thesis by (simp add: x st)
  next
    case (Inr v)
    with step have r: "r = Inr ()" and v: "view s2 a = v" by simp_all
    show ?thesis
    proof (cases "is_castling E (board (view s0 self)) move")
      case True
      show ?thesis
      proof (cases "get_pseudo_moves E v = []")
        case e: True
        with Cons.IH [OF u2, of "(counts[i := 2], if mx < 2 then 2 else mx)"] True c p Inr r v
        show ?thesis by (simp add: x st b get_pseudo_moves_h_def Let_def)
      next
        case e: False
        with Cons.IH [OF u2, of "(counts[i := 2, i := 3], 3)"] True c p Inr r v
        show ?thesis by (simp add: x st b get_pseudo_moves_h_def Let_def del: list_update.simps)
      qed
    next
      case False
      show ?thesis
      proof (cases "get_pseudo_moves E v = []")
        case e: True
        with Cons.IH [OF u2, of "(counts, mx)"] False c p Inr r v
        show ?thesis by (simp add: x st b get_pseudo_moves_h_def Let_def)
      next
        case e: False
        define mx2 where "mx2 = (if mx < 2 then 2 else mx)"
        define counts2 where "counts2 = counts[i := 2]"
        obtain ri s3 where inner:
          "moves_3_inner_h E a i (get_pseudo_moves E v) (counts2, mx2) s2 = (ri, s3)"
          by (cases "moves_3_inner_h E a i (get_pseudo_moves E v) (counts2, mx2) s2")
        from moves_3_inner_h_props [OF wa unchanged_refl, of E i "get_pseudo_moves E v" "(counts2, mx2)"]
          inner
        have u3: "unchanged s2 s3"
          and ri: "moves_3_inner E v i (get_pseudo_moves E v) (counts2, mx2) = ri"
          by (simp_all add: v)
        have u03: "unchanged s0 s3" using u2 u3 by (rule unchanged_trans)
        have lhs: "moves_3_loop_h E self (x # xs) st s =
            (case ri of Inl er \<Rightarrow> (Inl er, s3) | Inr st3 \<Rightarrow> moves_3_loop_h E self xs st3 s3)"
          using e False c p r v inner
          by (simp add: x st b get_pseudo_moves_h_def Let_def mx2_def [symmetric]
              counts2_def [symmetric] del: list_update.simps)
        have rhs: "moves_3_loop E (view s0 self) (x # xs) st =
            (case ri of Inl er \<Rightarrow> Inl er | Inr st3 \<Rightarrow> moves_3_loop E (view s0 self) xs st3)"
          using e False Inr ri
          by (simp add: x st Let_def mx2_def [symmetric] counts2_def [symmetric]
              del: list_update.simps)
        show ?thesis
        proof (cases ri)
          case (Inl er)
          with u03 show ?thesis unfolding lhs rhs by simp
        next
          case (Inr st3)
          with Cons.IH [OF u03, of st3] show ?thesis unfolding lhs rhs by simp
        qed
      qed
    qed
  qed
qed

lemma get_moves_2_h_props:
  assumes w: "wf s self"
  shows "case get_moves_2_h E s self of
           (r, s') \<Rightarrow> unchanged s s' \<and> r = get_moves_2 E (view s self)"
proof -
  let ?ms = "get_pseudo_moves E (view s self)"
  obtain r s' where l: "moves_2_loop_h E self (enumerate 0 ?ms) (map (\<lambda>_. 1) ?ms, 1) s = (r, s')"
    by (cases "moves_2_loop_h E self (enumerate 0 ?ms) (map (\<lambda>_. 1) ?ms, 1) s")
  from moves_2_loop_h_props [OF w unchanged_refl, of E "enumerate 0 ?ms" "(map (\<lambda>_. 1) ?ms, 1)"] l
  have u: "unchanged s s'"
    and r: "r = moves_2_loop E (view s self) (enumerate 0 ?ms) (map (\<lambda>_. 1) ?ms, 1)"
    by simp_all
  from unchanged_view [OF u w] have v: "view s' self = view s self" by simp
  show ?thesis
    using l u r v
    by (auto simp: get_moves_2_h_def get_moves_2_def get_pseudo_moves_h_def Let_def
        split: sum.splits prod.splits)
qed

lemma get_moves_3_h_props:
  assumes w: "wf s self"
  shows "case get_moves_3_h E s self of
           (r, s') \<Rightarrow> unchanged s s' \<and> r = get_moves_3 E (view s self)"
proof -
  let ?ms = "get_pseudo_moves E (view s self)"
  obtain r s' where l: "moves_3_loop_h E self (enumerate 0 ?ms) (map (\<lambda>_. 1) ?ms, 1) s = (r, s')"
    by (cases "moves_3_loop_h E self (enumerate 0 ?ms) (map (\<lambda>_. 1) ?ms, 1) s")
  from moves_3_loop_h_props [OF w unchanged_refl, of E "enumerate 0 ?ms" "(map (\<lambda>_. 1) ?ms, 1)"] l
  have u: "unchanged s s'"
    and r: "r = moves_3_loop E (view s self) (enumerate 0 ?ms) (map (\<lambda>_. 1) ?ms, 1)"
    by simp_all
  from unchanged_view [OF u w] have v: "view s' self = view s self" by simp
  show ?thesis
    using l u r v
    by (auto simp: get_moves_3_h_def get_moves_3_def get_pseudo_moves_h_def Let_def
        split: sum.splits prod.splits)
qed

lemma get_moves_h_props:
  assumes w: "wf s self"
  shows "case get_moves_h E s self of
           (r, s') \<Rightarrow> unchanged s s' \<and> r = get_moves E (view s self)"
proof -
  have d: "dice_lists s ! dice_ref s self = dice_roll (view s self)"
    by (simp add: view_def)
  show ?thesis
    unfolding get_moves_h_def get_moves_def Let_def d
    using get_moves_2_h_props [OF w, of E] get_moves_3_h_props [OF w, of E]
    by (simp add: unchanged_refl get_pseudo_moves_h_def)
qed

text \<open>
  Claim C6. \<^verbatim>\<open>get_moves\<close>, run on the store for an object \<open>self\<close> whose references are
  in the store, leaves every object of the store as it was, whatever the number of dice
  and also when it raises: the board object, its dictionary, the two lists of rights
  and the list of dice. The lookahead writes only to the copies it appends. The value of
  \<open>self\<close> (piece placement, side to move, dice, both right-sets) is the same after the
  call, and the result is the one of \<open>get_moves\<close> on that value.
\<close>

theorem get_moves_h_pure:
  assumes "wf s self"
  shows "unchanged s (snd (get_moves_h E s self))
       \<and> view (snd (get_moves_h E s self)) self = view s self
       \<and> fst (get_moves_h E s self) = get_moves E (view s self)"
proof -
  obtain r s' where g: "get_moves_h E s self = (r, s')" by (cases "get_moves_h E s self")
  with get_moves_h_props [OF assms, of E]
  have u: "unchanged s s'" and r: "r = get_moves E (view s self)" by simp_all
  from unchanged_view [OF u assms] have "view s' self = view s self" by simp
  with g u r show ?thesis by simp
qed

lemma S0_wf: "wf S0 0"
  by (simp add: wf_def S0_def ep_ref_def dice_ref_def WHITE_def BLACK_def)

lemma S0_view: "view S0 0 = A0"
  by (simp add: view_def S0_def ep_ref_def dice_ref_def A0_def WHITE_def BLACK_def fun_eq_iff)

lemma S0_copy: "copy_h S0 0 = (1, S1)"
  unfolding copy_h_explicit [OF S0_wf]
  by (simp add: S0_def S1_def ep_ref_def dice_ref_def WHITE_def BLACK_def)

lemma S1_push: "push_h kp_engine S1 1 (mk_move 51 35) True = (Inr (), S2)"
  by (simp add: push_h_def super_push_def assertion_fails_def is_null_move_def
      S1_def S2_def A0_def A1_def ep_ref_def dice_ref_def
      example_defs kp_defs Let_def is_pawn_piece_def piece_at_def remove_dice_def grant_ep_h_def
      has_adjacent_opponent_pawn_def set_board_def set_dice_def set_squares_def)

lemma S2_views: "view S2 1 = A1" "view S2 0 = A0"
  by (simp_all add: view_def S2_def ep_ref_def dice_ref_def A0_def A1_def WHITE_def BLACK_def
      fun_eq_iff)

lemma T0_wf: "wf T0 0"
  by (simp add: wf_def T0_def ep_ref_def dice_ref_def WHITE_def BLACK_def)

lemma T0_view: "view T0 0 = D0"
  by (simp add: view_def T0_def ep_ref_def dice_ref_def D0_def WHITE_def BLACK_def fun_eq_iff)

theorem get_moves_h_pure_witness:
  "wf S0 0
   \<and> view S0 0 = A0
   \<and> length (dice_roll A0) = 3
   \<and> unchanged S0 (snd (get_moves_h kp_engine S0 0))
   \<and> view (snd (get_moves_h kp_engine S0 0)) 0 = A0
   \<and> fst (get_moves_h kp_engine S0 0) = get_moves kp_engine A0
   \<and> copy_h S0 0 = (1, S1)
   \<and> push_h kp_engine S1 1 (mk_move 51 35) True = (Inr (), S2)
   \<and> view S2 1 = A1
   \<and> view S2 0 = A0
   \<and> wf T0 0
   \<and> fst (get_moves_h kp_engine T0 0) = Inl AssertionError
   \<and> unchanged T0 (snd (get_moves_h kp_engine T0 0))
   \<and> view (snd (get_moves_h kp_engine T0 0)) 0 = D0"
  using get_moves_h_pure [OF S0_wf, of kp_engine] get_moves_h_pure [OF T0_wf, of kp_engine]
    S0_wf S0_view S0_copy S1_push S2_views T0_wf T0_view D0_aborts(2)
  by (simp add: A0_def)

subsection \<open>The invariant across the operations\<close>

text \<open>
  Claim C7, amended. What every operation keeps is \<open>ep_inv\<close>: no right occurs twice in
  a right-set, White's rights lie on the sixth rank and Black's on the third; hence no
  square is a right of both colours. It holds after \<^verbatim>\<open>__init__\<close>, \<^verbatim>\<open>next_player\<close> keeps
  it, and so does \<^verbatim>\<open>push\<close>, with or without \<^verbatim>\<open>make_changes\<close>, for a move that steps a
  pawn over two ranks only from the home rank of the colour to move. \<^verbatim>\<open>get_moves\<close>, run
  on the store, leaves the value of its object as it was, and so the invariant.
  Nothing is kept about the occupation of the squares.
\<close>

theorem ep_inv_preserved:
  "ep_inv (init b)
   \<and> (ep_inv self \<longrightarrow> ep_inv (next_player self))
   \<and> (ep_inv self \<and> home_double_step self move \<and> push E self move mc = Inr self'
        \<longrightarrow> ep_inv self')
   \<and> (ep_inv self \<longrightarrow>
        set (ep_squares self WHITE) \<inter> set (ep_squares self BLACK) = {}
        \<and> distinct (ep_squares self WHITE) \<and> distinct (ep_squares self BLACK))
   \<and> (wf s a \<and> ep_inv (view s a) \<longrightarrow> ep_inv (view (snd (get_moves_h E s a)) a))"
proof (intro conjI impI)
  show "ep_inv (init b)" by (rule ep_inv_init)
next
  assume "ep_inv self"
  then show "ep_inv (next_player self)" by (rule ep_inv_next_player)
next
  assume "ep_inv self \<and> home_double_step self move \<and> push E self move mc = Inr self'"
  then show "ep_inv self'" using ep_inv_push by blast
next
  assume "ep_inv self"
  then show "set (ep_squares self WHITE) \<inter> set (ep_squares self BLACK) = {}"
    by (rule ep_inv_disjoint)
next
  assume "ep_inv self"
  then show "distinct (ep_squares self WHITE)" by (simp add: ep_inv_def)
next
  assume "ep_inv self"
  then show "distinct (ep_squares self BLACK)" by (simp add: ep_inv_def)
next
  assume h: "wf s a \<and> ep_inv (view s a)"
  obtain r s' where g: "get_moves_h E s a = (r, s')" by (cases "get_moves_h E s a")
  from h have w: "wf s a" by simp
  from get_moves_h_props [OF w, of E] g have "unchanged s s'" by simp
  from unchanged_view [OF this w] have "view s' a = view s a" by simp
  with h g show "ep_inv (view (snd (get_moves_h E s a)) a)" by simp
qed

theorem ep_inv_preserved_witness:
  "ep_inv A0 \<and> home_double_step A0 (mk_move 51 35)
   \<and> push kp_engine A0 (mk_move 51 35) True = Inr A1
   \<and> ep_inv A1 \<and> ep_inv (next_player A1)
   \<and> set (ep_squares A1 WHITE) \<inter> set (ep_squares A1 BLACK) = {}
   \<and> wf S0 0 \<and> ep_inv (view S0 0)
   \<and> ep_inv (view (snd (get_moves_h kp_engine S0 0)) 0)"
proof -
  have a: "ep_inv A0"
    by (simp add: ep_inv_def A0_def)
  have h: "home_double_step A0 (mk_move 51 35)"
    by (simp add: home_double_step_def A0_def example_defs square_rank_def)
  from ep_inv_preserved [of undefined A0 "mk_move 51 35" kp_engine True A1] a h A0_push
  have b: "ep_inv A1" by blast
  from ep_inv_preserved [of undefined A1 "mk_move 51 35" kp_engine True A1] b
  have n: "ep_inv (next_player A1)"
    "set (ep_squares A1 WHITE) \<inter> set (ep_squares A1 BLACK) = {}" by blast+
  have v: "ep_inv (view S0 0)" unfolding S0_view by (rule a)
  from ep_inv_preserved [of undefined A0 "mk_move 51 35" kp_engine True A1 S0 0] S0_wf v
  have "ep_inv (view (snd (get_moves_h kp_engine S0 0)) 0)" by blast
  with a h b n v A0_push S0_wf show ?thesis by blast
qed


end
